theory Spec2Isabelle
  imports Main "HOL-Library.Word" "HOL-Library.Multiset"
begin

section \<open>Data model\<close>

text \<open>
  The repository implements one interface (symtable.h) twice: as a singly linked list
  (symtablelist.c) and as a hash table with chained buckets (symtablehash.c).

  \<^item> \<open>size_t\<close> is a 64-bit unsigned integer; its arithmetic wraps.
  \<^item> A C string is modelled by the list of the characters that stand before its
    terminating NUL; a pointer that may be \<open>NULL\<close> is an \<open>option\<close>
    (\<open>None\<close> is \<open>NULL\<close>). Stored values are \<open>void *\<close> handles, hence
    \<open>'v option\<close>: the table may hold a \<open>NULL\<close> value.
  \<^item> A chain of \<open>struct Binding\<close> nodes linked through \<open>next\<close> is the list of its
    nodes, head first.
  \<^item> A failed \<open>assert\<close>, a division by zero and a read or write outside an array
    are values of the type \<open>error\<close>; every function that can reach one returns
    \<open>error + result\<close>.
  \<^item> \<open>malloc\<close> and \<open>calloc\<close> may fail: each call site takes a boolean that says
    whether this allocation succeeds.
  \<^item> Whether plain \<open>char\<close> is signed is implementation-defined; the functions that
    hash take it as the parameter \<open>sg\<close>.
  \<^item> Operations that modify the table through its pointer return the table they leave.
\<close>

type_synonym size_t = "64 word"

datatype error = AssertionFailure | DivisionByZero | OutOfBounds

record 'v Binding =
  key :: string
  val :: "'v option"

definition primeBuckCounts :: "size_t list" where
  "primeBuckCounts = [509, 1021, 2039, 4093, 8191, 16381, 32749, 65521]"

section \<open>The loops over one chain\<close>

text \<open>
  Both files walk a chain with the same four loops: the search of \<open>SymTable_put\<close> and
  \<open>SymTable_contains\<close>, the search of \<open>SymTable_get\<close>, the search and update of
  \<open>SymTable_replace\<close>, and the search with a trailing pointer of \<open>SymTable_remove\<close>.
  \<open>strcmp(pcKey, binding->key) == 0\<close> is equality of the two strings.
\<close>

fun contains_loop :: "'v Binding list \<Rightarrow> string \<Rightarrow> bool" where
  "contains_loop [] pcKey = False"
| "contains_loop (b # bs) pcKey = (if pcKey = key b then True else contains_loop bs pcKey)"

fun get_loop :: "'v Binding list \<Rightarrow> string \<Rightarrow> 'v option" where
  "get_loop [] pcKey = None"
| "get_loop (b # bs) pcKey = (if pcKey = key b then val b else get_loop bs pcKey)"

text \<open>\<open>None\<close>: the loop ended with \<open>binding == NULL\<close>. Otherwise the old value and the
  chain with the new value stored in the binding found.\<close>

fun replace_loop ::
  "'v Binding list \<Rightarrow> string \<Rightarrow> 'v option \<Rightarrow> ('v option \<times> 'v Binding list) option" where
  "replace_loop [] pcKey pvValue = None"
| "replace_loop (b # bs) pcKey pvValue =
     (if pcKey = key b then Some (val b, b\<lparr>val := pvValue\<rparr> # bs)
      else (case replace_loop bs pcKey pvValue of
              None \<Rightarrow> None
            | Some (oldValue, bs') \<Rightarrow> Some (oldValue, b # bs')))"

text \<open>\<open>None\<close>: no binding has the key. Otherwise the removed value and the chain with
  the binding unlinked: the head moves on when the binding is first, the previous
  binding's \<open>next\<close> skips it otherwise.\<close>

fun remove_loop ::
  "'v Binding list \<Rightarrow> string \<Rightarrow> ('v option \<times> 'v Binding list) option" where
  "remove_loop [] pcKey = None"
| "remove_loop (b # bs) pcKey =
     (if pcKey = key b then Some (val b, bs)
      else (case remove_loop bs pcKey of
              None \<Rightarrow> None
            | Some (removedValue, bs') \<Rightarrow> Some (removedValue, b # bs')))"

text \<open>The loop of \<open>SymTable_free\<close> over one chain releases the key and the node of every
  binding; the model returns the keys released, in order.\<close>

fun free_chain :: "'v Binding list \<Rightarrow> string list" where
  "free_chain [] = []"
| "free_chain (b # bs) = key b # free_chain bs"

text \<open>The loop of \<open>SymTable_map\<close> over one chain. The callback acts on the caller's
  state \<open>'s\<close>; it is given the key, the value and \<open>pvExtra\<close>. A callback that
  inserts into or removes from the table it is traversing is outside the model.\<close>

fun map_chain ::
  "(string \<Rightarrow> 'v option \<Rightarrow> 'e \<Rightarrow> 's \<Rightarrow> 's) \<Rightarrow> 'e \<Rightarrow> 'v Binding list \<Rightarrow> 's \<Rightarrow> 's" where
  "map_chain pfApply pvExtra [] s = s"
| "map_chain pfApply pvExtra (b # bs) s =
     map_chain pfApply pvExtra bs (pfApply (key b) (val b) pvExtra s)"

section \<open>symtablelist.c\<close>

record 'v SymTable_list =
  firstBinding :: "'v Binding list"
  length_list :: size_t

definition SymTable_new_list :: "bool \<Rightarrow> 'v SymTable_list option" where
  "SymTable_new_list malloc_ok =
     (if \<not> malloc_ok then None else Some \<lparr>firstBinding = [], length_list = 0\<rparr>)"

definition SymTable_free_list :: "'v SymTable_list option \<Rightarrow> error + string list" where
  "SymTable_free_list oSymTable =
     (case oSymTable of
        None \<Rightarrow> Inl AssertionFailure
      | Some t \<Rightarrow> Inr (free_chain (firstBinding t)))"

definition SymTable_getLength_list :: "'v SymTable_list option \<Rightarrow> error + size_t" where
  "SymTable_getLength_list oSymTable =
     (case oSymTable of
        None \<Rightarrow> Inl AssertionFailure
      | Some t \<Rightarrow> Inr (length_list t))"

definition SymTable_put_list ::
  "bool \<Rightarrow> bool \<Rightarrow> 'v SymTable_list option \<Rightarrow> string option \<Rightarrow> 'v option
     \<Rightarrow> error + (int \<times> 'v SymTable_list)" where
  "SymTable_put_list malloc_binding_ok malloc_key_ok oSymTable pcKey pvValue =
     (case oSymTable of
        None \<Rightarrow> Inl AssertionFailure
      | Some t \<Rightarrow>
         (case pcKey of
            None \<Rightarrow> Inl AssertionFailure
          | Some k \<Rightarrow>
              if contains_loop (firstBinding t) k then Inr (0, t)
              else if \<not> malloc_binding_ok then Inr (0, t)
              else if \<not> malloc_key_ok then Inr (0, t)
              else Inr (1, t\<lparr>firstBinding := \<lparr>key = k, val = pvValue\<rparr> # firstBinding t,
                              length_list := length_list t + 1\<rparr>)))"

definition SymTable_replace_list ::
  "'v SymTable_list option \<Rightarrow> string option \<Rightarrow> 'v option
     \<Rightarrow> error + ('v option \<times> 'v SymTable_list)" where
  "SymTable_replace_list oSymTable pcKey pvValue =
     (case oSymTable of
        None \<Rightarrow> Inl AssertionFailure
      | Some t \<Rightarrow>
         (case pcKey of
            None \<Rightarrow> Inl AssertionFailure
          | Some k \<Rightarrow>
             (case replace_loop (firstBinding t) k pvValue of
                None \<Rightarrow> Inr (None, t)
              | Some (oldValue, bs) \<Rightarrow> Inr (oldValue, t\<lparr>firstBinding := bs\<rparr>))))"

definition SymTable_contains_list ::
  "'v SymTable_list option \<Rightarrow> string option \<Rightarrow> error + int" where
  "SymTable_contains_list oSymTable pcKey =
     (case oSymTable of
        None \<Rightarrow> Inl AssertionFailure
      | Some t \<Rightarrow>
         (case pcKey of
            None \<Rightarrow> Inl AssertionFailure
          | Some k \<Rightarrow> Inr (if contains_loop (firstBinding t) k then 1 else 0)))"

definition SymTable_get_list ::
  "'v SymTable_list option \<Rightarrow> string option \<Rightarrow> error + 'v option" where
  "SymTable_get_list oSymTable pcKey =
     (case oSymTable of
        None \<Rightarrow> Inl AssertionFailure
      | Some t \<Rightarrow>
         (case pcKey of
            None \<Rightarrow> Inl AssertionFailure
          | Some k \<Rightarrow> Inr (get_loop (firstBinding t) k)))"

definition SymTable_remove_list ::
  "'v SymTable_list option \<Rightarrow> string option \<Rightarrow> error + ('v option \<times> 'v SymTable_list)" where
  "SymTable_remove_list oSymTable pcKey =
     (case oSymTable of
        None \<Rightarrow> Inl AssertionFailure
      | Some t \<Rightarrow>
         (case pcKey of
            None \<Rightarrow> Inl AssertionFailure
          | Some k \<Rightarrow>
             (case remove_loop (firstBinding t) k of
                None \<Rightarrow> Inr (None, t)
              | Some (removedValue, bs) \<Rightarrow>
                  Inr (removedValue, t\<lparr>firstBinding := bs, length_list := length_list t - 1\<rparr>))))"

definition SymTable_map_list ::
  "'v SymTable_list option \<Rightarrow> (string \<Rightarrow> 'v option \<Rightarrow> 'e \<Rightarrow> 's \<Rightarrow> 's) option \<Rightarrow> 'e \<Rightarrow> 's
     \<Rightarrow> error + 's" where
  "SymTable_map_list oSymTable pfApply pvExtra s =
     (case oSymTable of
        None \<Rightarrow> Inl AssertionFailure
      | Some t \<Rightarrow>
         (case pfApply of
            None \<Rightarrow> Inl AssertionFailure
          | Some f \<Rightarrow> Inr (map_chain f pvExtra (firstBinding t) s)))"

section \<open>symtablehash.c\<close>

record 'v SymTable =
  buckets :: "'v Binding list list"
  length_tbl :: size_t
  numBuckets :: size_t

subsection \<open>SymTable_hash\<close>

text \<open>\<open>(size_t)pcKey[u]\<close>: the character's value, sign-extended where \<open>char\<close> is
  signed. The function is written for any width of the unsigned type; the table uses
  it at \<open>size_t\<close>.\<close>

definition char_to_size_t :: "bool \<Rightarrow> char \<Rightarrow> 'w::len word" where
  "char_to_size_t sg c =
     (if sg then scast (of_char c :: 8 word) else ucast (of_char c :: 8 word))"

fun hash_loop :: "bool \<Rightarrow> string \<Rightarrow> 'w::len word \<Rightarrow> 'w word" where
  "hash_loop sg [] uHash = uHash"
| "hash_loop sg (c # cs) uHash = hash_loop sg cs (uHash * 65599 + char_to_size_t sg c)"

definition SymTable_hash :: "bool \<Rightarrow> string option \<Rightarrow> 'w::len word \<Rightarrow> error + 'w word" where
  "SymTable_hash sg pcKey uBucketCount =
     (case pcKey of
        None \<Rightarrow> Inl AssertionFailure
      | Some k \<Rightarrow>
          if uBucketCount = 0 then Inl DivisionByZero
          else Inr (hash_loop sg k 0 mod uBucketCount))"

subsection \<open>SymTable_new, SymTable_free, SymTable_getLength\<close>

definition SymTable_new :: "bool \<Rightarrow> bool \<Rightarrow> 'v SymTable option" where
  "SymTable_new malloc_ok calloc_ok =
     (if \<not> malloc_ok then None
      else if \<not> calloc_ok then None
      else Some \<lparr>buckets = replicate (unat (primeBuckCounts ! 0)) [],
                 length_tbl = 0,
                 numBuckets = primeBuckCounts ! 0\<rparr>)"

function free_buckets :: "'v SymTable \<Rightarrow> nat \<Rightarrow> error + string list" where
  "free_buckets t bucketNumber =
     (if bucketNumber < unat (numBuckets t) then
        (if bucketNumber < length (buckets t) then
           (case free_buckets t (bucketNumber + 1) of
              Inl e \<Rightarrow> Inl e
            | Inr freed \<Rightarrow> Inr (free_chain (buckets t ! bucketNumber) @ freed))
         else Inl OutOfBounds)
      else Inr [])"
  by pat_completeness auto
termination
  by (relation "measure (\<lambda>(t, bucketNumber). unat (numBuckets t) - bucketNumber)") auto

definition SymTable_free :: "'v SymTable option \<Rightarrow> error + string list" where
  "SymTable_free oSymTable =
     (case oSymTable of
        None \<Rightarrow> Inl AssertionFailure
      | Some t \<Rightarrow> free_buckets t 0)"

definition SymTable_getLength :: "'v SymTable option \<Rightarrow> error + size_t" where
  "SymTable_getLength oSymTable =
     (case oSymTable of
        None \<Rightarrow> Inl AssertionFailure
      | Some t \<Rightarrow> Inr (length_tbl t))"

subsection \<open>SymTable_expand\<close>

text \<open>The search \<open>while (primeBuckCounts[index] != numBuckets) index += 1\<close>. The array
  has eight elements; a read at index 8 or beyond is outside it.\<close>

function expand_search :: "size_t \<Rightarrow> nat \<Rightarrow> error + nat" where
  "expand_search n index =
     (if index < length primeBuckCounts then
        (if primeBuckCounts ! index \<noteq> n then expand_search n (index + 1) else Inr index)
      else Inl OutOfBounds)"
  by pat_completeness auto
termination
  by (relation "measure (\<lambda>(n, index). length primeBuckCounts - index)") auto

text \<open>The inner loop: every binding of one old chain is pushed on the head of its new
  chain.\<close>

fun rehash_chain ::
  "bool \<Rightarrow> 'v Binding list \<Rightarrow> size_t \<Rightarrow> 'v Binding list list \<Rightarrow> error + 'v Binding list list" where
  "rehash_chain sg [] newNumBuckets newBuckets = Inr newBuckets"
| "rehash_chain sg (b # bs) newNumBuckets newBuckets =
     (case SymTable_hash sg (Some (key b)) newNumBuckets of
        Inl e \<Rightarrow> Inl e
      | Inr newBucket \<Rightarrow>
          if unat newBucket < length newBuckets then
            rehash_chain sg bs newNumBuckets
              (newBuckets[unat newBucket := b # newBuckets ! unat newBucket])
          else Inl OutOfBounds)"

function rehash_buckets ::
  "bool \<Rightarrow> 'v SymTable \<Rightarrow> size_t \<Rightarrow> nat \<Rightarrow> 'v Binding list list \<Rightarrow> error + 'v Binding list list" where
  "rehash_buckets sg t newNumBuckets bucket newBuckets =
     (if bucket < unat (numBuckets t) then
        (if bucket < length (buckets t) then
           (case rehash_chain sg (buckets t ! bucket) newNumBuckets newBuckets of
              Inl e \<Rightarrow> Inl e
            | Inr newBuckets' \<Rightarrow> rehash_buckets sg t newNumBuckets (bucket + 1) newBuckets')
         else Inl OutOfBounds)
      else Inr newBuckets)"
  by pat_completeness auto
termination
  by (relation "measure (\<lambda>(sg, t, n, bucket, nb). unat (numBuckets t) - bucket)") auto

definition SymTable_expand :: "bool \<Rightarrow> bool \<Rightarrow> 'v SymTable \<Rightarrow> error + 'v SymTable" where
  "SymTable_expand sg calloc_ok t =
     (case expand_search (numBuckets t) 0 of
        Inl e \<Rightarrow> Inl e
      | Inr index \<Rightarrow>
          if \<not> index + 1 < length primeBuckCounts then Inl OutOfBounds
          else
            let newNumBuckets = primeBuckCounts ! (index + 1) in
            if \<not> calloc_ok then Inr t
            else
              (case rehash_buckets sg t newNumBuckets 0 (replicate (unat newNumBuckets) []) of
                 Inl e \<Rightarrow> Inl e
               | Inr newBuckets \<Rightarrow>
                   Inr (t\<lparr>buckets := newBuckets, numBuckets := newNumBuckets\<rparr>)))"

subsection \<open>SymTable_put\<close>

definition SymTable_put ::
  "bool \<Rightarrow> bool \<Rightarrow> bool \<Rightarrow> bool \<Rightarrow> 'v SymTable option \<Rightarrow> string option \<Rightarrow> 'v option
     \<Rightarrow> error + (int \<times> 'v SymTable)" where
  "SymTable_put sg calloc_ok malloc_binding_ok malloc_key_ok oSymTable pcKey pvValue =
     (case oSymTable of
        None \<Rightarrow> Inl AssertionFailure
      | Some t \<Rightarrow>
         (case pcKey of
            None \<Rightarrow> Inl AssertionFailure
          | Some k \<Rightarrow>
             (case (if length_tbl t > numBuckets t then
                      (let maximum = length primeBuckCounts in
                       if numBuckets t < primeBuckCounts ! (maximum - 1)
                       then SymTable_expand sg calloc_ok t else Inr t)
                    else Inr t) of
                Inl e \<Rightarrow> Inl e
              | Inr t1 \<Rightarrow>
                 (case SymTable_hash sg (Some k) (numBuckets t1) of
                    Inl e \<Rightarrow> Inl e
                  | Inr bucket \<Rightarrow>
                      if \<not> unat bucket < length (buckets t1) then Inl OutOfBounds
                      else if contains_loop (buckets t1 ! unat bucket) k then Inr (0, t1)
                      else if \<not> malloc_binding_ok then Inr (0, t1)
                      else if \<not> malloc_key_ok then Inr (0, t1)
                      else Inr (1, t1\<lparr>buckets := (buckets t1)
                                         [unat bucket :=
                                            \<lparr>key = k, val = pvValue\<rparr> # buckets t1 ! unat bucket],
                                       length_tbl := length_tbl t1 + 1\<rparr>)))))"

subsection \<open>SymTable_replace, SymTable_contains, SymTable_get, SymTable_remove\<close>

definition SymTable_replace ::
  "bool \<Rightarrow> 'v SymTable option \<Rightarrow> string option \<Rightarrow> 'v option
     \<Rightarrow> error + ('v option \<times> 'v SymTable)" where
  "SymTable_replace sg oSymTable pcKey pvValue =
     (case oSymTable of
        None \<Rightarrow> Inl AssertionFailure
      | Some t \<Rightarrow>
         (case pcKey of
            None \<Rightarrow> Inl AssertionFailure
          | Some k \<Rightarrow>
             (case SymTable_hash sg (Some k) (numBuckets t) of
                Inl e \<Rightarrow> Inl e
              | Inr bucket \<Rightarrow>
                  if \<not> unat bucket < length (buckets t) then Inl OutOfBounds
                  else
                    (case replace_loop (buckets t ! unat bucket) k pvValue of
                       None \<Rightarrow> Inr (None, t)
                     | Some (oldValue, bs) \<Rightarrow>
                         Inr (oldValue, t\<lparr>buckets := (buckets t)[unat bucket := bs]\<rparr>)))))"

definition SymTable_contains ::
  "bool \<Rightarrow> 'v SymTable option \<Rightarrow> string option \<Rightarrow> error + int" where
  "SymTable_contains sg oSymTable pcKey =
     (case oSymTable of
        None \<Rightarrow> Inl AssertionFailure
      | Some t \<Rightarrow>
         (case pcKey of
            None \<Rightarrow> Inl AssertionFailure
          | Some k \<Rightarrow>
             (case SymTable_hash sg (Some k) (numBuckets t) of
                Inl e \<Rightarrow> Inl e
              | Inr bucket \<Rightarrow>
                  if \<not> unat bucket < length (buckets t) then Inl OutOfBounds
                  else Inr (if contains_loop (buckets t ! unat bucket) k then 1 else 0))))"

definition SymTable_get ::
  "bool \<Rightarrow> 'v SymTable option \<Rightarrow> string option \<Rightarrow> error + 'v option" where
  "SymTable_get sg oSymTable pcKey =
     (case oSymTable of
        None \<Rightarrow> Inl AssertionFailure
      | Some t \<Rightarrow>
         (case pcKey of
            None \<Rightarrow> Inl AssertionFailure
          | Some k \<Rightarrow>
             (case SymTable_hash sg (Some k) (numBuckets t) of
                Inl e \<Rightarrow> Inl e
              | Inr bucket \<Rightarrow>
                  if \<not> unat bucket < length (buckets t) then Inl OutOfBounds
                  else Inr (get_loop (buckets t ! unat bucket) k))))"

definition SymTable_remove ::
  "bool \<Rightarrow> 'v SymTable option \<Rightarrow> string option \<Rightarrow> error + ('v option \<times> 'v SymTable)" where
  "SymTable_remove sg oSymTable pcKey =
     (case oSymTable of
        None \<Rightarrow> Inl AssertionFailure
      | Some t \<Rightarrow>
         (case pcKey of
            None \<Rightarrow> Inl AssertionFailure
          | Some k \<Rightarrow>
             (case SymTable_hash sg (Some k) (numBuckets t) of
                Inl e \<Rightarrow> Inl e
              | Inr bucket \<Rightarrow>
                  if \<not> unat bucket < length (buckets t) then Inl OutOfBounds
                  else
                    (case remove_loop (buckets t ! unat bucket) k of
                       None \<Rightarrow> Inr (None, t)
                     | Some (removedValue, bs) \<Rightarrow>
                         Inr (removedValue,
                              t\<lparr>buckets := (buckets t)[unat bucket := bs],
                                length_tbl := length_tbl t - 1\<rparr>)))))"

subsection \<open>SymTable_map\<close>

function map_buckets ::
  "'v SymTable \<Rightarrow> (string \<Rightarrow> 'v option \<Rightarrow> 'e \<Rightarrow> 's \<Rightarrow> 's) \<Rightarrow> 'e \<Rightarrow> nat \<Rightarrow> 's \<Rightarrow> error + 's" where
  "map_buckets t pfApply pvExtra bucketNumber s =
     (if bucketNumber < unat (numBuckets t) then
        (if bucketNumber < length (buckets t) then
           map_buckets t pfApply pvExtra (bucketNumber + 1)
             (map_chain pfApply pvExtra (buckets t ! bucketNumber) s)
         else Inl OutOfBounds)
      else Inr s)"
  by pat_completeness auto
termination
  by (relation "measure (\<lambda>(t, f, e, bucketNumber, s). unat (numBuckets t) - bucketNumber)") auto

definition SymTable_map ::
  "'v SymTable option \<Rightarrow> (string \<Rightarrow> 'v option \<Rightarrow> 'e \<Rightarrow> 's \<Rightarrow> 's) option \<Rightarrow> 'e \<Rightarrow> 's
     \<Rightarrow> error + 's" where
  "SymTable_map oSymTable pfApply pvExtra s =
     (case oSymTable of
        None \<Rightarrow> Inl AssertionFailure
      | Some t \<Rightarrow>
         (case pfApply of
            None \<Rightarrow> Inl AssertionFailure
          | Some f \<Rightarrow> map_buckets t f pvExtra 0 s))"

section \<open>Definitions used to state the properties\<close>

subsection \<open>The hash as a polynomial\<close>

text \<open>The polynomial hash as the specification words it: the byte values of the key
  (0 to 255), left to right, are the coefficients of a polynomial in 65599, highest power
  first. The polynomial is taken over the integers; the accumulation in a \<open>w\<close>-bit
  unsigned integer reduces it modulo \<open>2 ^ w\<close>.\<close>

definition byte_value :: "char \<Rightarrow> int" where
  "byte_value c = int (of_char c)"

definition byte_polynomial :: "string \<Rightarrow> int" where
  "byte_polynomial k = (\<Sum>i<length k. byte_value (k ! i) * 65599 ^ (length k - 1 - i))"

text \<open>The same polynomial over the values the characters have in the type \<open>char\<close> of
  the platform: where \<open>char\<close> is signed, a byte of 128 or more is a negative value.\<close>

definition char_value :: "bool \<Rightarrow> char \<Rightarrow> int" where
  "char_value sg c = (if sg then sint (of_char c :: 8 word) else uint (of_char c :: 8 word))"

definition polynomial_hash :: "bool \<Rightarrow> string \<Rightarrow> int" where
  "polynomial_hash sg k = (\<Sum>i<length k. char_value sg (k ! i) * 65599 ^ (length k - 1 - i))"

subsection \<open>The bindings of a table and its invariant\<close>

text \<open>The bindings of a hash table, bucket after bucket, each chain from its head; and
  a binding as the pair the callback of a traversal is given.\<close>

definition bindings :: "'v SymTable \<Rightarrow> 'v Binding list" where
  "bindings t = concat (buckets t)"

definition entry :: "'v Binding \<Rightarrow> string \<times> 'v option" where
  "entry b = (key b, val b)"

text \<open>The invariant of the hash table: the bucket count is one of \<open>primeBuckCounts\<close>;
  the bucket array has that many chains; every binding is in the chain of its hash under
  the current bucket count; no key is bound twice; and \<open>length\<close> is the number of
  bindings (as a \<open>size_t\<close>). The table \<open>SymTable_new\<close> returns satisfies it and every
  operation keeps it (\<open>reachable_inv\<close> below), so the properties stated for the tables
  that satisfy it hold for every table a caller can hold.\<close>

definition SymTable_inv :: "bool \<Rightarrow> 'v SymTable \<Rightarrow> bool" where
  "SymTable_inv sg t \<longleftrightarrow>
     numBuckets t \<in> set primeBuckCounts \<and>
     length (buckets t) = unat (numBuckets t) \<and>
     (\<forall>i \<in> {..<length (buckets t)}. \<forall>b \<in> set (buckets t ! i).
        SymTable_hash sg (Some (key b)) (numBuckets t) = Inr (of_nat i)) \<and>
     distinct (map key (bindings t)) \<and>
     length_tbl t = of_nat (length (bindings t))"

text \<open>The index \<open>SymTable_hash\<close> computes for a key in a table.\<close>

definition bucket_of :: "bool \<Rightarrow> 'v SymTable \<Rightarrow> string \<Rightarrow> nat" where
  "bucket_of sg t k = unat (hash_loop sg k 0 mod numBuckets t)"

text \<open>The invariant of the linked list: no key is bound twice, and \<open>length\<close> is the
  number of bindings.\<close>

definition list_inv :: "'v SymTable_list \<Rightarrow> bool" where
  "list_inv l \<longleftrightarrow>
     distinct (map key (firstBinding l)) \<and> length_list l = of_nat (length (firstBinding l))"

text \<open>The equations of the loops over the bucket index are unfolded by hand.\<close>

declare expand_search.simps [simp del]

declare rehash_buckets.simps [simp del]

declare map_buckets.simps [simp del]

declare free_buckets.simps [simp del]

subsection \<open>The two parts of SymTable_put\<close>

text \<open>\<open>SymTable_put\<close>, after its assertions, is the statement that may expand the
  table followed by the search and the insertion (\<open>SymTable_put_parts\<close> below).\<close>

definition put_grow :: "bool \<Rightarrow> bool \<Rightarrow> 'v SymTable \<Rightarrow> error + 'v SymTable" where
  "put_grow sg calloc_ok t =
     (if length_tbl t > numBuckets t then
        (let maximum = length primeBuckCounts in
         if numBuckets t < primeBuckCounts ! (maximum - 1)
         then SymTable_expand sg calloc_ok t else Inr t)
      else Inr t)"

definition put_insert ::
  "bool \<Rightarrow> bool \<Rightarrow> bool \<Rightarrow> 'v SymTable \<Rightarrow> string \<Rightarrow> 'v option \<Rightarrow> error + (int \<times> 'v SymTable)" where
  "put_insert sg malloc_binding_ok malloc_key_ok t1 k pvValue =
     (case SymTable_hash sg (Some k) (numBuckets t1) of
        Inl e \<Rightarrow> Inl e
      | Inr bucket \<Rightarrow>
          if \<not> unat bucket < length (buckets t1) then Inl OutOfBounds
          else if contains_loop (buckets t1 ! unat bucket) k then Inr (0, t1)
          else if \<not> malloc_binding_ok then Inr (0, t1)
          else if \<not> malloc_key_ok then Inr (0, t1)
          else Inr (1, t1\<lparr>buckets := (buckets t1)
                             [unat bucket := \<lparr>key = k, val = pvValue\<rparr> # buckets t1 ! unat bucket],
                           length_tbl := length_tbl t1 + 1\<rparr>))"

subsection \<open>Building tables by insertions\<close>

text \<open>The bindings whose key is in a given set; and the table left by a list of
  insertions whose allocations all succeed (an insertion that aborts would end the
  list; none does on a table whose invariant holds).\<close>

definition keys_in :: "string set \<Rightarrow> 'v Binding \<Rightarrow> bool" where
  "keys_in S b \<longleftrightarrow> key b \<in> S"

fun put_all :: "bool \<Rightarrow> 'v SymTable \<Rightarrow> (string \<times> 'v option) list \<Rightarrow> 'v SymTable" where
  "put_all sg t [] = t"
| "put_all sg t ((k, v) # kvs) =
     (case SymTable_put sg True True True (Some t) (Some k) v of
        Inl e \<Rightarrow> t
      | Inr (r, t') \<Rightarrow> put_all sg t' kvs)"

subsection \<open>Example tables\<close>

text \<open>The table \<open>SymTable_new\<close> returns, and tables built from it by successful
  insertions: first \<open>bbvw\<close> and \<open>kebb\<close>, two keys that share a bucket under 509 and
  under 1021 buckets, then the empty key, \<open>a\<close>, \<open>aa\<close>, \<open>aaa\<close> and so on, up to 510
  and to 511 bindings.\<close>

definition empty_table :: "nat SymTable" where
  "empty_table = \<lparr>buckets = replicate 509 [], length_tbl = 0, numBuckets = 509\<rparr>"

definition table2 :: "nat SymTable" where
  "table2 = put_all False empty_table [(''bbvw'', Some 10), (''kebb'', Some 20)]"

definition a_keys :: "nat \<Rightarrow> (string \<times> nat option) list" where
  "a_keys n = map (\<lambda>i. (replicate i CHR ''a'', Some i)) [0..<n]"

definition table510 :: "nat SymTable" where
  "table510 = put_all False table2 (a_keys 508)"

definition table511 :: "nat SymTable" where
  "table511 = put_all False table510 [(replicate 508 CHR ''a'', Some 508)]"

text \<open>The linked list after the same two insertions as \<open>table2\<close>.\<close>

definition list2 :: "nat SymTable_list" where
  "list2 = \<lparr>firstBinding = [\<lparr>key = ''kebb'', val = Some 20\<rparr>, \<lparr>key = ''bbvw'', val = Some 10\<rparr>],
            length_list = 2\<rparr>"

subsection \<open>Reachable tables\<close>

text \<open>The tables a caller can hold: what \<open>SymTable_new\<close> returns, and what
  \<open>SymTable_put\<close>, \<open>SymTable_replace\<close> and \<open>SymTable_remove\<close> leave of a reachable
  table. The other operations do not write to the table.\<close>

inductive reachable :: "bool \<Rightarrow> 'v SymTable \<Rightarrow> bool" for sg :: bool where
  reach_new: "SymTable_new malloc_ok calloc_ok = Some t \<Longrightarrow> reachable sg t"
| reach_put: "reachable sg t \<Longrightarrow>
     SymTable_put sg calloc_ok malloc_binding_ok malloc_key_ok (Some t) (Some k) v = Inr (r, t')
     \<Longrightarrow> reachable sg t'"
| reach_replace: "reachable sg t \<Longrightarrow>
     SymTable_replace sg (Some t) (Some k) v = Inr (old, t') \<Longrightarrow> reachable sg t'"
| reach_remove: "reachable sg t \<Longrightarrow>
     SymTable_remove sg (Some t) (Some k) = Inr (old, t') \<Longrightarrow> reachable sg t'"

subsection \<open>The calls of a traversal\<close>

text \<open>A callback that appends its arguments to a list, and the list of calls a traversal
  of the hash table makes.\<close>

definition record_call ::
  "string \<Rightarrow> 'v option \<Rightarrow> 'e \<Rightarrow> (string \<times> 'v option \<times> 'e) list \<Rightarrow> (string \<times> 'v option \<times> 'e) list" where
  "record_call k v e s = s @ [(k, v, e)]"

definition map_calls :: "'v SymTable \<Rightarrow> 'e \<Rightarrow> (string \<times> 'v option \<times> 'e) list" where
  "map_calls t e =
     (case SymTable_map (Some t) (Some record_call) e [] of Inl err \<Rightarrow> [] | Inr cs \<Rightarrow> cs)"

subsection \<open>Sequences of operations on both implementations\<close>

text \<open>An operation of the interface with its arguments. \<open>Put\<close> carries the outcomes of
  its allocations: of the \<open>calloc\<close> of an expansion (symtablehash.c only), of the
  \<open>malloc\<close> of the binding and of the \<open>malloc\<close> of the key copy. \<open>Map\<close> is run with
  the callback \<open>record_call\<close> and the context \<open>()\<close>. What the caller observes of an
  operation is its result; of \<open>Map\<close>, the list of calls.\<close>

datatype 'v operation =
    Put bool bool bool "string option" "'v option"
  | Get "string option"
  | Contains "string option"
  | Replace "string option" "'v option"
  | Remove "string option"
  | GetLength
  | Map

datatype 'v observation =
    PutResult int
  | GetResult "'v option"
  | ContainsResult int
  | ReplaceResult "'v option"
  | RemoveResult "'v option"
  | LengthResult size_t
  | MapCalls "(string \<times> 'v option \<times> unit) list"

fun step_hash :: "bool \<Rightarrow> 'v SymTable \<Rightarrow> 'v operation \<Rightarrow> error + ('v observation \<times> 'v SymTable)" where
  "step_hash sg t (Put c m1 m2 k v) =
     (case SymTable_put sg c m1 m2 (Some t) k v of
        Inl e \<Rightarrow> Inl e | Inr (r, t') \<Rightarrow> Inr (PutResult r, t'))"
| "step_hash sg t (Get k) =
     (case SymTable_get sg (Some t) k of Inl e \<Rightarrow> Inl e | Inr v \<Rightarrow> Inr (GetResult v, t))"
| "step_hash sg t (Contains k) =
     (case SymTable_contains sg (Some t) k of Inl e \<Rightarrow> Inl e | Inr r \<Rightarrow> Inr (ContainsResult r, t))"
| "step_hash sg t (Replace k v) =
     (case SymTable_replace sg (Some t) k v of
        Inl e \<Rightarrow> Inl e | Inr (old, t') \<Rightarrow> Inr (ReplaceResult old, t'))"
| "step_hash sg t (Remove k) =
     (case SymTable_remove sg (Some t) k of
        Inl e \<Rightarrow> Inl e | Inr (old, t') \<Rightarrow> Inr (RemoveResult old, t'))"
| "step_hash sg t GetLength =
     (case SymTable_getLength (Some t) of Inl e \<Rightarrow> Inl e | Inr n \<Rightarrow> Inr (LengthResult n, t))"
| "step_hash sg t Map =
     (case SymTable_map (Some t) (Some record_call) () [] of
        Inl e \<Rightarrow> Inl e | Inr cs \<Rightarrow> Inr (MapCalls cs, t))"

fun step_list :: "'v SymTable_list \<Rightarrow> 'v operation \<Rightarrow> error + ('v observation \<times> 'v SymTable_list)" where
  "step_list l (Put c m1 m2 k v) =
     (case SymTable_put_list m1 m2 (Some l) k v of
        Inl e \<Rightarrow> Inl e | Inr (r, l') \<Rightarrow> Inr (PutResult r, l'))"
| "step_list l (Get k) =
     (case SymTable_get_list (Some l) k of Inl e \<Rightarrow> Inl e | Inr v \<Rightarrow> Inr (GetResult v, l))"
| "step_list l (Contains k) =
     (case SymTable_contains_list (Some l) k of Inl e \<Rightarrow> Inl e | Inr r \<Rightarrow> Inr (ContainsResult r, l))"
| "step_list l (Replace k v) =
     (case SymTable_replace_list (Some l) k v of
        Inl e \<Rightarrow> Inl e | Inr (old, l') \<Rightarrow> Inr (ReplaceResult old, l'))"
| "step_list l (Remove k) =
     (case SymTable_remove_list (Some l) k of
        Inl e \<Rightarrow> Inl e | Inr (old, l') \<Rightarrow> Inr (RemoveResult old, l'))"
| "step_list l GetLength =
     (case SymTable_getLength_list (Some l) of Inl e \<Rightarrow> Inl e | Inr n \<Rightarrow> Inr (LengthResult n, l))"
| "step_list l Map =
     (case SymTable_map_list (Some l) (Some record_call) () [] of
        Inl e \<Rightarrow> Inl e | Inr cs \<Rightarrow> Inr (MapCalls cs, l))"

fun run_hash :: "bool \<Rightarrow> 'v SymTable \<Rightarrow> 'v operation list \<Rightarrow> error + 'v observation list" where
  "run_hash sg t [] = Inr []"
| "run_hash sg t (x # xs) =
     (case step_hash sg t x of
        Inl e \<Rightarrow> Inl e
      | Inr (ob, t') \<Rightarrow>
          (case run_hash sg t' xs of Inl e \<Rightarrow> Inl e | Inr obs \<Rightarrow> Inr (ob # obs)))"

fun run_list :: "'v SymTable_list \<Rightarrow> 'v operation list \<Rightarrow> error + 'v observation list" where
  "run_list l [] = Inr []"
| "run_list l (x # xs) =
     (case step_list l x of
        Inl e \<Rightarrow> Inl e
      | Inr (ob, l') \<Rightarrow>
          (case run_list l' xs of Inl e \<Rightarrow> Inl e | Inr obs \<Rightarrow> Inr (ob # obs)))"

text \<open>Two observations agree when they are equal, or are the calls of two traversals
  that pass the same arguments the same number of times, in any order.\<close>

fun same_observation :: "'v observation \<Rightarrow> 'v observation \<Rightarrow> bool" where
  "same_observation (MapCalls xs) (MapCalls ys) = (mset xs = mset ys)"
| "same_observation a b = (a = b)"

text \<open>The relation between a hash table and a linked list that hold the same bindings.\<close>

definition same_bindings :: "bool \<Rightarrow> 'v SymTable \<Rightarrow> 'v SymTable_list \<Rightarrow> bool" where
  "same_bindings sg t l \<longleftrightarrow>
     SymTable_inv sg t \<and> list_inv l \<and> mset (bindings t) = mset (firstBinding l)"

text \<open>The list \<open>SymTable_new\<close> of symtablelist.c returns, and two sequences of
  operations.\<close>

definition empty_list :: "nat SymTable_list" where
  "empty_list = \<lparr>firstBinding = [], length_list = 0\<rparr>"

definition ops_ab :: "nat operation list" where
  "ops_ab = [Put True True True (Some ''a'') (Some 10),
             Put True True True (Some ''b'') (Some 20),
             Map]"

definition ops_scenario :: "nat operation list" where
  "ops_scenario = [Put True True True (Some ''a'') (Some 10),
                   Put True True True (Some ''b'') (Some 20),
                   Put True True True (Some ''a'') (Some 30),
                   Get (Some ''a''),
                   Replace (Some ''a'') (Some 90),
                   Get (Some ''a''),
                   Remove (Some ''b''),
                   GetLength,
                   Contains (Some ''b''),
                   Map]"

section \<open>Properties of SymTable_hash\<close>

lemma uint_of_char: "uint (of_char c :: 8 word) = byte_value c"
proof -
  have "(of_char c :: nat) < 256" by simp
  then have "uint (of_nat (of_char c) :: 8 word) = int (of_char c)"
    by (simp add: uint_nat unat_of_nat)
  then show ?thesis by (simp add: of_nat_of_char byte_value_def)
qed

lemma byte_value_range: "0 \<le> byte_value c" "byte_value c < 256"
  using nat_of_char_less_256 [of c] by (simp_all add: byte_value_def)

lemma sint_of_char:
  "sint (of_char c :: 8 word) = (if 128 \<le> byte_value c then byte_value c - 256 else byte_value c)"
proof -
  have n: "LENGTH(8) - Suc 0 = 7" by simp
  have "sint (of_char c :: 8 word) = signed_take_bit 7 (byte_value c)"
    by (simp only: sint_uint uint_of_char n)
  also have "\<dots> = take_bit (Suc 7) (byte_value c + 2 ^ 7) - 2 ^ 7"
    by (rule signed_take_bit_eq_take_bit_shift)
  also have "\<dots> = (byte_value c + 128) mod 256 - 128"
    by (simp only: take_bit_eq_mod) simp
  finally have s: "sint (of_char c :: 8 word) = (byte_value c + 128) mod 256 - 128" .
  show ?thesis
  proof (cases "128 \<le> byte_value c")
    case True
    have "byte_value c + 128 = byte_value c - 128 + 256" by simp
    then have "(byte_value c + 128) mod 256 = (byte_value c - 128 + 256) mod 256"
      by (rule arg_cong)
    also have "\<dots> = (byte_value c - 128) mod 256" by (simp only: mod_add_self2)
    also have "\<dots> = byte_value c - 128"
      using True byte_value_range [of c] by (intro mod_pos_pos_trivial) simp_all
    finally show ?thesis using True s by simp
  next
    case False
    have "(byte_value c + 128) mod 256 = byte_value c + 128"
      using False byte_value_range [of c] by (intro mod_pos_pos_trivial) simp_all
    then show ?thesis using False s by simp
  qed
qed

lemma char_value_byte:
  "char_value sg c = (if sg \<and> 128 \<le> byte_value c then byte_value c - 256 else byte_value c)"
  by (simp add: char_value_def sint_of_char uint_of_char)

lemma polynomial_hash_bytes:
  assumes "\<not> sg \<or> (\<forall>c \<in> set k. byte_value c < 128)"
  shows "polynomial_hash sg k = byte_polynomial k"
proof -
  have "char_value sg (k ! i) = byte_value (k ! i)" if "i < length k" for i
  proof -
    have "k ! i \<in> set k" using that by simp
    then have "\<not> (sg \<and> 128 \<le> byte_value (k ! i))" using assms by fastforce
    then show ?thesis by (simp only: char_value_byte if_False)
  qed
  then show ?thesis
    unfolding polynomial_hash_def byte_polynomial_def by (intro sum.cong) simp_all
qed

lemma char_to_size_t_value: "char_to_size_t sg c = word_of_int (char_value sg c)"
  by (simp add: char_to_size_t_def char_value_def)

lemma polynomial_hash_Nil: "polynomial_hash sg [] = 0"
  by (simp add: polynomial_hash_def)

lemma polynomial_hash_Cons:
  "polynomial_hash sg (c # cs) = char_value sg c * 65599 ^ length cs + polynomial_hash sg cs"
  by (simp add: polynomial_hash_def sum.lessThan_Suc_shift del: sum.lessThan_Suc)

lemma hash_loop_polynomial:
  "hash_loop sg k uHash = uHash * 65599 ^ length k + word_of_int (polynomial_hash sg k)"
proof (induction k arbitrary: uHash)
  case Nil
  show ?case by (simp add: polynomial_hash_Nil)
next
  case (Cons c cs)
  show ?case
    by (simp add: Cons.IH polynomial_hash_Cons char_to_size_t_value algebra_simps)
qed

text \<open>
  Claim C7, amended. For every non-null key and every positive bucket count, of any
  width \<open>w\<close> of the unsigned type, \<open>SymTable_hash\<close> returns a value below the bucket
  count, and this value is the polynomial in 65599 over the values of the key's
  characters in the platform's type \<open>char\<close>, reduced modulo \<open>2 ^ w\<close> and then modulo
  the bucket count. The value of a character is its byte value, except that where
  \<open>char\<close> is signed a byte of 128 or more counts as the byte value minus 256. So the
  hash is the polynomial over the byte values where \<open>char\<close> is unsigned, and for the
  keys whose bytes are all below 128.
\<close>

theorem SymTable_hash_polynomial:
  fixes uBucketCount :: "'w::len word"
  assumes "uBucketCount \<noteq> 0"
  shows "\<exists>h. SymTable_hash sg (Some k) uBucketCount = Inr h \<and> h < uBucketCount \<and>
           uint h = (polynomial_hash sg k mod 2 ^ LENGTH('w)) mod uint uBucketCount \<and>
           (\<forall>c. char_value sg c =
                  (if sg \<and> 128 \<le> byte_value c then byte_value c - 256 else byte_value c)) \<and>
           (\<not> sg \<or> (\<forall>c \<in> set k. byte_value c < 128) \<longrightarrow>
              uint h = (byte_polynomial k mod 2 ^ LENGTH('w)) mod uint uBucketCount)"
proof -
  let ?h = "hash_loop sg k 0 mod uBucketCount"
  have 1: "SymTable_hash sg (Some k) uBucketCount = Inr ?h"
    using assms by (simp add: SymTable_hash_def)
  have 2: "?h < uBucketCount"
    using assms by (simp add: word_mod_less_divisor word_greater_zero_iff)
  have 3: "uint ?h = (polynomial_hash sg k mod 2 ^ LENGTH('w)) mod uint uBucketCount"
    by (simp add: hash_loop_polynomial uint_mod uint_word_of_int)
  have 4: "\<forall>c. char_value sg c =
                  (if sg \<and> 128 \<le> byte_value c then byte_value c - 256 else byte_value c)"
    using char_value_byte by blast
  have 5: "\<not> sg \<or> (\<forall>c \<in> set k. byte_value c < 128) \<longrightarrow>
              uint ?h = (byte_polynomial k mod 2 ^ LENGTH('w)) mod uint uBucketCount"
    using 3 polynomial_hash_bytes [of sg k] by auto
  show ?thesis using 1 2 3 4 5 by blast
qed

text \<open>At the key \<open>a\<close> followed by the byte \<open>0xFF\<close>, with 509 buckets. With a signed
  \<open>char\<close> the polynomial is \<open>97 * 65599 - 1\<close> and the hash is 93; with an unsigned
  \<open>char\<close> it is the polynomial over the byte values, \<open>97 * 65599 + 255\<close>, and the hash
  is 349.\<close>

theorem SymTable_hash_polynomial_witness:
  "(509 :: size_t) \<noteq> 0 \<and>
   polynomial_hash True [CHR ''a'', CHR 0xFF] = 97 * 65599 - 1 \<and>
   (\<exists>h. SymTable_hash True (Some [CHR ''a'', CHR 0xFF]) (509 :: size_t) = Inr h \<and>
        h < 509 \<and> uint h = 93) \<and>
   byte_polynomial [CHR ''a'', CHR 0xFF] = 97 * 65599 + 255 \<and>
   (\<exists>h. SymTable_hash False (Some [CHR ''a'', CHR 0xFF]) (509 :: size_t) = Inr h \<and>
        h < 509 \<and> uint h = 349)"
proof -
  have p: "polynomial_hash True [CHR ''a'', CHR 0xFF] = 97 * 65599 - 1"
    by (simp add: polynomial_hash_def char_value_def lessThan_Suc)
  have q: "byte_polynomial [CHR ''a'', CHR 0xFF] = 97 * 65599 + 255"
    by (simp add: byte_polynomial_def byte_value_def lessThan_Suc)
  have n: "(509 :: size_t) \<noteq> 0" by simp
  obtain h where h: "SymTable_hash True (Some [CHR ''a'', CHR 0xFF]) (509 :: size_t) = Inr h"
    "h < 509"
    "uint h = (polynomial_hash True [CHR ''a'', CHR 0xFF] mod 2 ^ LENGTH(64)) mod uint (509 :: size_t)"
    using SymTable_hash_polynomial [OF n, of True "[CHR ''a'', CHR 0xFF]"] by blast
  have u: "uint h = 93" unfolding h(3) p by simp
  have 1: "\<exists>h. SymTable_hash True (Some [CHR ''a'', CHR 0xFF]) (509 :: size_t) = Inr h \<and>
        h < 509 \<and> uint h = 93"
    using h(1) h(2) u by blast
  obtain g where g: "SymTable_hash False (Some [CHR ''a'', CHR 0xFF]) (509 :: size_t) = Inr g"
    "g < 509"
    "uint g = (byte_polynomial [CHR ''a'', CHR 0xFF] mod 2 ^ LENGTH(64)) mod uint (509 :: size_t)"
    using SymTable_hash_polynomial [OF n, of False "[CHR ''a'', CHR 0xFF]"] by blast
  have v: "uint g = 349" unfolding g(3) q by simp
  have 2: "\<exists>h. SymTable_hash False (Some [CHR ''a'', CHR 0xFF]) (509 :: size_t) = Inr h \<and>
        h < 509 \<and> uint h = 349"
    using g(1) g(2) v by blast
  show ?thesis using n p 1 q 2 by (intro conjI)
qed

text \<open>The claim as stated fails where \<open>char\<close> is signed: for the key \<open>a\<close> followed by
  the byte \<open>0xFF\<close> and 509 buckets the function returns 93, and the polynomial over the
  byte values 97 and 255, reduced modulo \<open>2 ^ 64\<close> and then modulo 509, is 349.\<close>

theorem SymTable_hash_polynomial_counterexample:
  "SymTable_hash True (Some [CHR ''a'', CHR 0xFF]) (509 :: size_t) = Inr 93 \<and>
   byte_polynomial [CHR ''a'', CHR 0xFF] = 97 * 65599 + 255 \<and>
   (byte_polynomial [CHR ''a'', CHR 0xFF] mod 2 ^ 64) mod 509 = 349"
proof -
  have 1: "SymTable_hash True (Some [CHR ''a'', CHR 0xFF]) (509 :: size_t) = Inr 93"
    by (simp add: SymTable_hash_def char_to_size_t_def)
  have 2: "byte_polynomial [CHR ''a'', CHR 0xFF] = 97 * 65599 + 255"
    by (simp add: byte_polynomial_def byte_value_def lessThan_Suc)
  have 3: "(byte_polynomial [CHR ''a'', CHR 0xFF] mod 2 ^ 64) mod 509 = 349"
    unfolding 2 by simp
  show ?thesis using 1 2 3 by (intro conjI)
qed

section \<open>Null arguments\<close>

text \<open>
  Claim C4. \<open>SymTable_free\<close> called with a null table does not return: the first
  statement of both implementations is \<open>assert(oSymTable != NULL)\<close>.
\<close>

theorem SymTable_free_NULL:
  "SymTable_free None = Inl AssertionFailure \<and> SymTable_free_list None = Inl AssertionFailure"
  by (simp add: SymTable_free_def SymTable_free_list_def)

section \<open>The loops over a chain\<close>

lemma contains_loop_iff: "contains_loop bs k \<longleftrightarrow> k \<in> key ` set bs"
  by (induction bs) auto

lemma get_loop_map_of:
  "get_loop bs k = (case map_of (map entry bs) k of None \<Rightarrow> None | Some v \<Rightarrow> v)"
  by (induction bs) (auto simp: entry_def)

lemma map_of_entry_Some:
  "distinct (map key bs) \<Longrightarrow>
     map_of (map entry bs) k = Some v \<longleftrightarrow> (\<exists>b \<in> set bs. key b = k \<and> val b = v)"
  by (induction bs) (auto simp: entry_def rev_image_eqI)

section \<open>The invariant of the hash table\<close>

lemma primeBuckCounts_nonzero: "n \<in> set primeBuckCounts \<Longrightarrow> n \<noteq> 0"
  by (auto simp: primeBuckCounts_def)

lemma SymTable_hash_Some:
  "n \<noteq> 0 \<Longrightarrow> SymTable_hash sg (Some k) n = Inr (hash_loop sg k 0 mod n)"
  by (simp add: SymTable_hash_def)

lemma unat_mod_less: "(n :: 'a::len word) \<noteq> 0 \<Longrightarrow> unat (x mod n) < unat n"
  by (simp add: unat_mod unat_gt_0)

lemma inv_hash:
  "SymTable_inv sg t \<Longrightarrow>
     SymTable_hash sg (Some k) (numBuckets t) = Inr (hash_loop sg k 0 mod numBuckets t)"
  by (simp add: SymTable_inv_def SymTable_hash_Some primeBuckCounts_nonzero)

lemma inv_bucket_of_less: "SymTable_inv sg t \<Longrightarrow> bucket_of sg t k < length (buckets t)"
  by (simp add: SymTable_inv_def bucket_of_def unat_mod_less primeBuckCounts_nonzero)

lemma inv_bucket_of_less': "SymTable_inv sg t \<Longrightarrow> unat (hash_loop sg k 0 mod numBuckets t) < length (buckets t)"
  using inv_bucket_of_less [of sg t k] by (simp add: bucket_of_def)

lemma inv_bucketD:
  assumes "SymTable_inv sg t" "i < length (buckets t)" "b \<in> set (buckets t ! i)"
  shows "bucket_of sg t (key b) = i"
proof -
  have "SymTable_hash sg (Some (key b)) (numBuckets t) = Inr (of_nat i)"
    using assms by (simp add: SymTable_inv_def)
  then have "hash_loop sg (key b) 0 mod numBuckets t = of_nat i"
    using inv_hash [OF assms(1), of "key b"] by simp
  moreover have "i < 2 ^ LENGTH(64)"
    using assms(1,2) unsigned_less [of "numBuckets t", where ?'a = nat]
    by (simp add: SymTable_inv_def)
  ultimately show ?thesis
    by (simp add: bucket_of_def unat_of_nat)
qed

lemma concat_nth_split:
  "i < length xs \<Longrightarrow> concat xs = concat (take i xs) @ xs ! i @ concat (drop (Suc i) xs)"
  by (metis append_Cons append_Nil concat.simps(2) concat_append id_take_nth_drop)

lemma concat_update_split:
  "i < length xs \<Longrightarrow>
     concat (xs[i := c]) = concat (take i xs) @ c @ concat (drop (Suc i) xs)"
  by (simp add: upd_conv_take_nth_drop)

lemma in_concat_nth:
  "b \<in> set (concat xs) \<longleftrightarrow> (\<exists>j < length xs. b \<in> set (xs ! j))"
proof -
  have "(\<exists>ys \<in> set xs. b \<in> set ys) \<longleftrightarrow> (\<exists>j < length xs. b \<in> set (xs ! j))"
    by (metis in_set_conv_nth)
  then show ?thesis by simp
qed

lemma in_concat_take:
  "b \<in> set (concat (take i xs)) \<Longrightarrow> \<exists>j < length xs. j \<noteq> i \<and> b \<in> set (xs ! j)"
proof -
  assume "b \<in> set (concat (take i xs))"
  then obtain j where "j < length (take i xs)" "b \<in> set (take i xs ! j)"
    unfolding in_concat_nth by blast
  then have "j < length xs" "j \<noteq> i" "b \<in> set (xs ! j)"
    by auto
  then show ?thesis by blast
qed

lemma in_concat_drop:
  "b \<in> set (concat (drop (Suc i) xs)) \<Longrightarrow> \<exists>j < length xs. j \<noteq> i \<and> b \<in> set (xs ! j)"
proof -
  assume "b \<in> set (concat (drop (Suc i) xs))"
  then obtain j where "j < length (drop (Suc i) xs)" "b \<in> set (drop (Suc i) xs ! j)"
    unfolding in_concat_nth by blast
  then have "Suc i + j < length xs" "Suc i + j \<noteq> i" "b \<in> set (xs ! (Suc i + j))"
    by auto
  then show ?thesis by blast
qed

lemma in_bindings_nth:
  "b \<in> set (bindings t) \<longleftrightarrow> (\<exists>j < length (buckets t). b \<in> set (buckets t ! j))"
  unfolding bindings_def by (rule in_concat_nth)

lemma inv_key_bucket:
  assumes "SymTable_inv sg t"
  shows "k \<in> key ` set (bindings t) \<longleftrightarrow> k \<in> key ` set (buckets t ! bucket_of sg t k)"
proof
  assume "k \<in> key ` set (bindings t)"
  then obtain b where "b \<in> set (bindings t)" "key b = k" by blast
  then obtain j where b: "j < length (buckets t)" "b \<in> set (buckets t ! j)" "key b = k"
    using in_bindings_nth [of b t] by blast
  then have "bucket_of sg t k = j" using inv_bucketD [OF assms b(1) b(2)] by simp
  then show "k \<in> key ` set (buckets t ! bucket_of sg t k)" using b by auto
next
  assume "k \<in> key ` set (buckets t ! bucket_of sg t k)"
  then obtain b where "b \<in> set (buckets t ! bucket_of sg t k)" "key b = k" by auto
  then have "b \<in> set (bindings t)"
    using inv_bucket_of_less [OF assms, of k] in_bindings_nth [of b t] by blast
  then show "k \<in> key ` set (bindings t)" using \<open>key b = k\<close> by blast
qed

lemma inv_distinct_bucket:
  assumes "SymTable_inv sg t" "i < length (buckets t)"
  shows "distinct (map key (buckets t ! i))"
proof -
  have "distinct (map key (concat (buckets t)))"
    using assms(1) by (simp add: SymTable_inv_def bindings_def)
  then show ?thesis
    by (subst (asm) concat_nth_split [OF assms(2)]) simp
qed

lemma inv_lookup_bucket:
  assumes "SymTable_inv sg t"
  shows "map_of (map entry (bindings t)) k = map_of (map entry (buckets t ! bucket_of sg t k)) k"
proof -
  let ?i = "bucket_of sg t k"
  have i: "?i < length (buckets t)" by (rule inv_bucket_of_less [OF assms])
  have d1: "distinct (map key (bindings t))" using assms by (simp add: SymTable_inv_def)
  have d2: "distinct (map key (buckets t ! ?i))" by (rule inv_distinct_bucket [OF assms i])
  have "map_of (map entry (bindings t)) k = Some v \<longleftrightarrow>
        map_of (map entry (buckets t ! ?i)) k = Some v" for v
  proof -
    have "(\<exists>b \<in> set (bindings t). key b = k \<and> val b = v) \<longleftrightarrow>
          (\<exists>b \<in> set (buckets t ! ?i). key b = k \<and> val b = v)"
    proof
      assume "\<exists>b \<in> set (bindings t). key b = k \<and> val b = v"
      then obtain b where b0: "b \<in> set (bindings t)" "key b = k" "val b = v" by blast
      then obtain j where b: "j < length (buckets t)" "b \<in> set (buckets t ! j)"
        "key b = k" "val b = v"
        using in_bindings_nth [of b t] by blast
      then have "?i = j" using inv_bucketD [OF assms b(1) b(2)] by simp
      then show "\<exists>b \<in> set (buckets t ! ?i). key b = k \<and> val b = v" using b by auto
    next
      assume "\<exists>b \<in> set (buckets t ! ?i). key b = k \<and> val b = v"
      then obtain b where b: "b \<in> set (buckets t ! ?i)" "key b = k" "val b = v" by blast
      have "b \<in> set (bindings t)"
        using i b(1) in_bindings_nth [of b t] by blast
      then show "\<exists>b \<in> set (bindings t). key b = k \<and> val b = v" using b by blast
    qed
    then show ?thesis by (simp add: map_of_entry_Some d1 d2)
  qed
  then show ?thesis by (metis option.exhaust)
qed

lemma SymTable_get_inv:
  "SymTable_inv sg t \<Longrightarrow>
     SymTable_get sg (Some t) (Some k) = Inr (get_loop (buckets t ! bucket_of sg t k) k)"
  by (simp add: SymTable_get_def inv_hash inv_bucket_of_less' bucket_of_def)

lemma SymTable_contains_inv:
  "SymTable_inv sg t \<Longrightarrow>
     SymTable_contains sg (Some t) (Some k) =
       Inr (if contains_loop (buckets t ! bucket_of sg t k) k then 1 else 0)"
  by (simp add: SymTable_contains_def inv_hash inv_bucket_of_less' bucket_of_def)

lemma SymTable_get_bindings:
  "SymTable_inv sg t \<Longrightarrow>
     SymTable_get sg (Some t) (Some k) =
       Inr (case map_of (map entry (bindings t)) k of None \<Rightarrow> None | Some v \<Rightarrow> v)"
  by (simp add: SymTable_get_inv get_loop_map_of inv_lookup_bucket)

lemma SymTable_contains_bindings:
  "SymTable_inv sg t \<Longrightarrow>
     SymTable_contains sg (Some t) (Some k) = Inr (if k \<in> key ` set (bindings t) then 1 else 0)"
  by (simp add: SymTable_contains_inv contains_loop_iff inv_key_bucket)

lemma inv_key_not_elsewhere:
  assumes "SymTable_inv sg t" "j < length (buckets t)" "j \<noteq> bucket_of sg t k"
  shows "k \<notin> key ` set (buckets t ! j)"
  using inv_bucketD [OF assms(1,2)] assms(3) by auto

lemma hash_of_bucket_of:
  "SymTable_inv sg t \<Longrightarrow>
     SymTable_hash sg (Some k) (numBuckets t) = Inr (of_nat (bucket_of sg t k))"
  by (simp add: inv_hash bucket_of_def)

lemma distinct_replace_middle:
  assumes "distinct (map f (A @ old @ C))" "distinct (map f c')"
    and "f ` set c' \<subseteq> insert k (f ` set old)" "k \<notin> f ` set A" "k \<notin> f ` set C"
  shows "distinct (map f (A @ c' @ C))"
proof -
  have 1: "f ` set A \<inter> f ` set old = {}" "f ` set old \<inter> f ` set C = {}"
    "f ` set A \<inter> f ` set C = {}" "distinct (map f A)" "distinct (map f C)"
    using assms(1) by auto
  have 2: "f ` set c' \<inter> f ` set A = {}" using 1(1) assms(3,4) by blast
  have 3: "f ` set c' \<inter> f ` set C = {}" using 1(2) assms(3,5) by blast
  have 4: "f ` set A \<inter> (f ` set c' \<union> f ` set C) = {}" using 2 1(3) by blast
  show ?thesis using 1(4,5) 2 3 4 assms(2) by simp
qed

lemma inv_update:
  assumes inv: "SymTable_inv sg t"
    and sub: "key ` set c' \<subseteq> insert k (key ` set (buckets t ! bucket_of sg t k))"
    and dis: "distinct (map key c')"
    and len: "L = of_nat (length (concat ((buckets t)[bucket_of sg t k := c'])))"
  shows "SymTable_inv sg (t\<lparr>buckets := (buckets t)[bucket_of sg t k := c'], length_tbl := L\<rparr>)"
proof -
  let ?i = "bucket_of sg t k"
  let ?xs = "buckets t"
  let ?A = "concat (take ?i ?xs)"
  let ?C = "concat (drop (Suc ?i) ?xs)"
  have i: "?i < length ?xs" by (rule inv_bucket_of_less [OF inv])
  have old: "distinct (map key (?A @ ?xs ! ?i @ ?C))"
    using inv concat_nth_split [OF i] by (simp add: SymTable_inv_def bindings_def)
  have kA: "k \<notin> key ` set ?A"
  proof
    assume "k \<in> key ` set ?A"
    then obtain b where b: "b \<in> set ?A" "key b = k" by blast
    obtain j where j: "j < length ?xs" "j \<noteq> ?i" "b \<in> set (?xs ! j)"
      using in_concat_take [OF b(1)] by blast
    have "k \<in> key ` set (?xs ! j)" using j(3) b(2) by (rule rev_image_eqI [OF _ sym])
    then show False using inv_key_not_elsewhere [OF inv j(1) j(2)] by simp
  qed
  have kC: "k \<notin> key ` set ?C"
  proof
    assume "k \<in> key ` set ?C"
    then obtain b where b: "b \<in> set ?C" "key b = k" by blast
    obtain j where j: "j < length ?xs" "j \<noteq> ?i" "b \<in> set (?xs ! j)"
      using in_concat_drop [OF b(1)] by blast
    have "k \<in> key ` set (?xs ! j)" using j(3) b(2) by (rule rev_image_eqI [OF _ sym])
    then show False using inv_key_not_elsewhere [OF inv j(1) j(2)] by simp
  qed
  have new: "distinct (map key (?A @ c' @ ?C))"
    by (rule distinct_replace_middle [OF old dis sub kA kC])
  have ok: "SymTable_hash sg (Some (key b)) (numBuckets t) = Inr (of_nat j)"
    if j: "j < length ?xs" and b: "b \<in> set (?xs[?i := c'] ! j)" for j b
  proof (cases "j = ?i")
    case True
    then have "b \<in> set c'" using b i by simp
    then have "key b = k \<or> key b \<in> key ` set (?xs ! ?i)" using sub by blast
    then have "bucket_of sg t (key b) = ?i"
      using inv_bucketD [OF inv i] by auto
    then show ?thesis using hash_of_bucket_of [OF inv, of "key b"] True by simp
  next
    case False
    then have "b \<in> set (?xs ! j)" using b by simp
    then show ?thesis using inv j by (simp add: SymTable_inv_def)
  qed
  show ?thesis
    unfolding SymTable_inv_def
    using inv new ok len concat_update_split [OF i, of c']
    by (simp add: SymTable_inv_def bindings_def)
qed

lemma length_concat_update:
  "i < length xs \<Longrightarrow>
     length (concat (xs[i := c])) + length (xs ! i) = length (concat xs) + length c"
  using concat_nth_split [of i xs] concat_update_split [of i xs c] by simp

lemma mset_concat_update:
  "i < length xs \<Longrightarrow>
     mset (concat (xs[i := c])) + mset (xs ! i) = mset (concat xs) + mset c"
  using concat_nth_split [of i xs] concat_update_split [of i xs c] by simp

section \<open>SymTable_remove and SymTable_replace on a chain\<close>

lemma remove_loop_None: "remove_loop bs k = None \<longleftrightarrow> k \<notin> key ` set bs"
  by (induction bs) (auto split: option.splits)

lemma remove_loop_Some:
  "remove_loop bs k = Some (v, bs') \<Longrightarrow>
     \<exists>xs b ys. bs = xs @ b # ys \<and> bs' = xs @ ys \<and> key b = k \<and> val b = v \<and>
                k \<notin> key ` set xs"
proof (induction bs arbitrary: bs')
  case Nil
  then show ?case by simp
next
  case (Cons a bs)
  show ?case
  proof (cases "k = key a")
    case True
    then have "v = val a" "bs' = bs" using Cons.prems by auto
    then have "a # bs = [] @ a # bs \<and> bs' = [] @ bs \<and> key a = k \<and> val a = v \<and>
               k \<notin> key ` set []"
      using True by simp
    then show ?thesis by blast
  next
    case False
    then obtain cs where cs: "remove_loop bs k = Some (v, cs)" "bs' = a # cs"
      using Cons.prems by (auto split: option.splits)
    from Cons.IH [OF cs(1)] obtain xs b ys where
      "bs = xs @ b # ys" "cs = xs @ ys" "key b = k" "val b = v" "k \<notin> key ` set xs"
      by blast
    then have "a # bs = (a # xs) @ b # ys \<and> bs' = (a # xs) @ ys \<and> key b = k \<and> val b = v \<and>
               k \<notin> key ` set (a # xs)"
      using False cs(2) by auto
    then show ?thesis by blast
  qed
qed

lemma replace_loop_None: "replace_loop bs k v = None \<longleftrightarrow> k \<notin> key ` set bs"
  by (induction bs) (auto split: option.splits)

lemma replace_loop_Some:
  "replace_loop bs k v = Some (old, bs') \<Longrightarrow>
     \<exists>xs b ys. bs = xs @ b # ys \<and> bs' = xs @ b\<lparr>val := v\<rparr> # ys \<and> key b = k \<and>
                val b = old \<and> k \<notin> key ` set xs"
proof (induction bs arbitrary: bs')
  case Nil
  then show ?case by simp
next
  case (Cons a bs)
  show ?case
  proof (cases "k = key a")
    case True
    then have "old = val a" "bs' = a\<lparr>val := v\<rparr> # bs" using Cons.prems by auto
    then have "a # bs = [] @ a # bs \<and> bs' = [] @ a\<lparr>val := v\<rparr> # bs \<and> key a = k \<and>
               val a = old \<and> k \<notin> key ` set []"
      using True by simp
    then show ?thesis by blast
  next
    case False
    then obtain cs where cs: "replace_loop bs k v = Some (old, cs)" "bs' = a # cs"
      using Cons.prems by (auto split: option.splits)
    from Cons.IH [OF cs(1)] obtain xs b ys where
      "bs = xs @ b # ys" "cs = xs @ b\<lparr>val := v\<rparr> # ys" "key b = k" "val b = old"
      "k \<notin> key ` set xs"
      by blast
    then have "a # bs = (a # xs) @ b # ys \<and> bs' = (a # xs) @ b\<lparr>val := v\<rparr> # ys \<and>
               key b = k \<and> val b = old \<and> k \<notin> key ` set (a # xs)"
      using False cs(2) by auto
    then show ?thesis by blast
  qed
qed

lemma get_loop_split:
  "k \<notin> key ` set xs \<Longrightarrow> key b = k \<Longrightarrow> get_loop (xs @ b # ys) k = val b"
  by (induction xs) auto

lemma SymTable_remove_inv:
  "SymTable_inv sg t \<Longrightarrow>
     SymTable_remove sg (Some t) (Some k) =
       (case remove_loop (buckets t ! bucket_of sg t k) k of
          None \<Rightarrow> Inr (None, t)
        | Some (v, bs) \<Rightarrow>
            Inr (v, t\<lparr>buckets := (buckets t)[bucket_of sg t k := bs],
                      length_tbl := length_tbl t - 1\<rparr>))"
  by (simp add: SymTable_remove_def inv_hash inv_bucket_of_less' bucket_of_def
      split: option.split)

lemma bucket_of_update [simp]:
  "bucket_of sg (t\<lparr>buckets := bs, length_tbl := L\<rparr>) k = bucket_of sg t k"
  "bucket_of sg (t\<lparr>buckets := bs\<rparr>) k = bucket_of sg t k"
  by (simp_all add: bucket_of_def)

lemma of_nat_pred_word:
  "n = Suc m \<Longrightarrow> (of_nat n :: 'a::len word) - 1 = of_nat m"
  by simp

lemma SymTable_remove_hash_bound:
  assumes inv: "SymTable_inv sg t"
    and bound: "SymTable_contains sg (Some t) (Some k) = Inr 1"
  shows "\<exists>v t' xs b ys.
           SymTable_remove sg (Some t) (Some k) = Inr (v, t') \<and>
           SymTable_get sg (Some t) (Some k) = Inr v \<and>
           buckets t ! bucket_of sg t k = xs @ b # ys \<and> key b = k \<and> val b = v \<and>
           k \<notin> key ` set xs \<and>
           buckets t' = (buckets t)[bucket_of sg t k := xs @ ys] \<and>
           numBuckets t' = numBuckets t \<and>
           length_tbl t' = length_tbl t - 1 \<and>
           Suc (length (bindings t')) = length (bindings t) \<and>
           SymTable_contains sg (Some t') (Some k) = Inr 0 \<and>
           SymTable_inv sg t'"
proof -
  let ?i = "bucket_of sg t k"
  have i: "?i < length (buckets t)" by (rule inv_bucket_of_less [OF inv])
  have "contains_loop (buckets t ! ?i) k"
    using bound by (simp add: SymTable_contains_inv [OF inv] split: if_splits)
  then have "remove_loop (buckets t ! ?i) k \<noteq> None"
    by (simp add: remove_loop_None contains_loop_iff)
  then obtain v bs where r: "remove_loop (buckets t ! ?i) k = Some (v, bs)" by auto
  from remove_loop_Some [OF r] obtain xs b ys where
    d: "buckets t ! ?i = xs @ b # ys" "bs = xs @ ys" "key b = k" "val b = v"
       "k \<notin> key ` set xs"
    by blast
  define t' where "t' = t\<lparr>buckets := (buckets t)[?i := xs @ ys], length_tbl := length_tbl t - 1\<rparr>"
  have rem: "SymTable_remove sg (Some t) (Some k) = Inr (v, t')"
    by (simp add: SymTable_remove_inv [OF inv] r d(2) t'_def)
  have get: "SymTable_get sg (Some t) (Some k) = Inr v"
    by (simp add: SymTable_get_inv [OF inv] d(1) get_loop_split [OF d(5) d(3)] d(4))
  have dist: "distinct (map key (xs @ b # ys))"
    using inv_distinct_bucket [OF inv i] d(1) by simp
  have len: "Suc (length (concat ((buckets t)[?i := xs @ ys]))) = length (bindings t)"
    using length_concat_update [OF i, of "xs @ ys"] d(1) by (simp add: bindings_def)
  have L: "length_tbl t - 1 = of_nat (length (concat ((buckets t)[?i := xs @ ys])))"
    using inv len by (simp add: SymTable_inv_def of_nat_pred_word [OF len [symmetric]])
  have inv': "SymTable_inv sg t'"
    unfolding t'_def
  proof (rule inv_update [OF inv _ _ L])
    show "key ` set (xs @ ys) \<subseteq> insert k (key ` set (buckets t ! ?i))"
      by (auto simp: d(1))
    show "distinct (map key (xs @ ys))" using dist by simp
  qed
  have nk: "k \<notin> key ` set (xs @ ys)" using dist d(3) by auto
  have "buckets t' ! bucket_of sg t' k = xs @ ys" using i by (simp add: t'_def)
  then have con: "SymTable_contains sg (Some t') (Some k) = Inr 0"
    using nk SymTable_contains_inv [OF inv', of k] by (simp add: contains_loop_iff)
  have b1: "buckets t' = (buckets t)[?i := xs @ ys]" "numBuckets t' = numBuckets t"
    "length_tbl t' = length_tbl t - 1"
    by (simp_all add: t'_def)
  have b2: "Suc (length (bindings t')) = length (bindings t)"
    using len by (simp add: bindings_def t'_def)
  show ?thesis
    using rem get d(1) d(3) d(4) d(5) b1 b2 con inv' by blast
qed

section \<open>SymTable_expand\<close>

lemma mset_concat_push:
  assumes "i < length xs"
  shows "mset (concat (xs[i := b # xs ! i])) = add_mset b (mset (concat xs))"
  using mset_concat_update [OF assms, of "b # xs ! i"] by simp

lemma rehash_chain_ok:
  assumes "n \<noteq> 0" "unat n \<le> length nb"
  shows "\<exists>nb'. rehash_chain sg bs n nb = Inr nb' \<and> length nb' = length nb \<and>
           mset (concat nb') = mset bs + mset (concat nb) \<and>
           (\<forall>j < length nb. nb' ! j =
              rev (filter (\<lambda>b. unat (hash_loop sg (key b) 0 mod n) = j) bs) @ nb ! j)"
  using assms(2)
proof (induction bs arbitrary: nb)
  case Nil
  then show ?case by simp
next
  case (Cons b bs)
  let ?h = "hash_loop sg (key b) 0 mod n"
  let ?nb1 = "nb[unat ?h := b # nb ! unat ?h]"
  have h: "unat ?h < length nb"
    using unat_mod_less [OF assms(1), of "hash_loop sg (key b) 0"] Cons.prems by simp
  have len1: "unat n \<le> length ?nb1" using Cons.prems by simp
  from Cons.IH [OF len1] obtain nb' where
    r: "rehash_chain sg bs n ?nb1 = Inr nb'" and
    l: "length nb' = length ?nb1" and
    m: "mset (concat nb') = mset bs + mset (concat ?nb1)" and
    c: "\<forall>j < length ?nb1. nb' ! j =
          rev (filter (\<lambda>b. unat (hash_loop sg (key b) 0 mod n) = j) bs) @ ?nb1 ! j"
    by blast
  have 1: "rehash_chain sg (b # bs) n nb = Inr nb'"
    using r h by (simp add: SymTable_hash_Some [OF assms(1)])
  have 2: "length nb' = length nb" using l by simp
  have 3: "mset (concat nb') = mset (b # bs) + mset (concat nb)"
    using m by (simp add: mset_concat_push [OF h])
  have 4: "nb' ! j = rev (filter (\<lambda>b. unat (hash_loop sg (key b) 0 mod n) = j) (b # bs)) @ nb ! j"
    if "j < length nb" for j
    using c that h by (cases "j = unat ?h") auto
  show ?case using 1 2 3 4 by blast
qed

lemma rehash_buckets_ok:
  assumes "n \<noteq> 0" "unat n \<le> length nb" "length (buckets t) = unat (numBuckets t)"
    "i \<le> length (buckets t)"
  shows "\<exists>nb'. rehash_buckets sg t n i nb = Inr nb' \<and> length nb' = length nb \<and>
           mset (concat nb') = mset (concat (drop i (buckets t))) + mset (concat nb) \<and>
           (\<forall>j < length nb. nb' ! j =
              rev (filter (\<lambda>b. unat (hash_loop sg (key b) 0 mod n) = j)
                     (concat (drop i (buckets t)))) @ nb ! j)"
  using assms(2,4)
proof (induction "length (buckets t) - i" arbitrary: i nb)
  case 0
  then have "i = length (buckets t)" by simp
  then show ?case
    using assms(3) by (simp add: rehash_buckets.simps)
next
  case (Suc d)
  let ?P = "\<lambda>j b. unat (hash_loop sg (key b) 0 mod n) = j"
  have i: "i < length (buckets t)" using Suc.hyps(2) by simp
  have dr: "drop i (buckets t) = buckets t ! i # drop (Suc i) (buckets t)"
    using i by (simp add: Cons_nth_drop_Suc)
  from rehash_chain_ok [OF assms(1) Suc.prems(1), of sg "buckets t ! i"] obtain nb1 where
    r1: "rehash_chain sg (buckets t ! i) n nb = Inr nb1" and
    l1: "length nb1 = length nb" and
    m1: "mset (concat nb1) = mset (buckets t ! i) + mset (concat nb)" and
    c1: "\<forall>j < length nb. nb1 ! j = rev (filter (?P j) (buckets t ! i)) @ nb ! j"
    by blast
  have d: "d = length (buckets t) - Suc i" using Suc.hyps(2) by simp
  have le1: "unat n \<le> length nb1" using Suc.prems(1) l1 by simp
  have le2: "Suc i \<le> length (buckets t)" using i by simp
  from Suc.hyps(1) [OF d le1 le2] obtain nb' where
    r: "rehash_buckets sg t n (Suc i) nb1 = Inr nb'" and
    l: "length nb' = length nb1" and
    m: "mset (concat nb') = mset (concat (drop (Suc i) (buckets t))) + mset (concat nb1)" and
    c: "\<forall>j < length nb1. nb' ! j = rev (filter (?P j) (concat (drop (Suc i) (buckets t)))) @ nb1 ! j"
    by blast
  have 1: "rehash_buckets sg t n i nb = Inr nb'"
    using r r1 i assms(3) by (subst rehash_buckets.simps) simp
  have 2: "length nb' = length nb" using l l1 by simp
  have 3: "mset (concat nb') = mset (concat (drop i (buckets t))) + mset (concat nb)"
    using m m1 by (simp add: dr)
  have 4: "nb' ! j = rev (filter (?P j) (concat (drop i (buckets t)))) @ nb ! j"
    if "j < length nb" for j
    using c c1 that l1 by (simp add: dr)
  show ?case using 1 2 3 4 by blast
qed

lemma expand_search_found:
  "n \<in> set primeBuckCounts \<Longrightarrow>
     \<exists>i. expand_search n 0 = Inr i \<and> i < length primeBuckCounts \<and> primeBuckCounts ! i = n \<and>
         (n < 65521 \<longrightarrow> i + 1 < length primeBuckCounts)"
  by (auto simp: primeBuckCounts_def expand_search.simps)

lemma map_of_entry_mset:
  assumes "distinct (map key xs)" "mset xs = mset ys"
  shows "map_of (map entry xs) = map_of (map entry ys)"
proof
  fix k
  have dy: "distinct (map key ys)"
    using assms by (metis mset_eq_imp_distinct_iff mset_map)
  have s: "set xs = set ys" using assms(2) by (rule mset_eq_setD)
  have "map_of (map entry xs) k = Some v \<longleftrightarrow> map_of (map entry ys) k = Some v" for v
    by (simp add: map_of_entry_Some assms(1) dy s)
  then show "map_of (map entry xs) k = map_of (map entry ys) k"
    by (metis option.exhaust)
qed

lemma nth_primeBuckCounts_mem:
  "i < length primeBuckCounts \<Longrightarrow> primeBuckCounts ! i \<in> set primeBuckCounts"
  by (rule nth_mem)

lemma SymTable_expand_ok:
  assumes inv: "SymTable_inv sg t" and lt: "numBuckets t < 65521"
  shows "\<exists>i nb. i + 1 < length primeBuckCounts \<and> primeBuckCounts ! i = numBuckets t \<and>
           SymTable_expand sg c t =
             Inr (if c then t\<lparr>buckets := nb, numBuckets := primeBuckCounts ! (i + 1)\<rparr> else t) \<and>
           length nb = unat (primeBuckCounts ! (i + 1)) \<and>
           mset (concat nb) = mset (bindings t) \<and>
           (\<forall>j < length nb. nb ! j =
              rev (filter (\<lambda>b. unat (hash_loop sg (key b) 0 mod primeBuckCounts ! (i + 1)) = j)
                     (bindings t)))"
proof -
  have mem: "numBuckets t \<in> set primeBuckCounts" using inv by (simp add: SymTable_inv_def)
  from expand_search_found [OF mem] lt obtain i where
    i: "expand_search (numBuckets t) 0 = Inr i" "i + 1 < length primeBuckCounts"
       "primeBuckCounts ! i = numBuckets t"
    by blast
  let ?n = "primeBuckCounts ! (i + 1)"
  have n0: "?n \<noteq> 0"
    by (rule primeBuckCounts_nonzero [OF nth_primeBuckCounts_mem [OF i(2)]])
  have len: "length (buckets t) = unat (numBuckets t)" using inv by (simp add: SymTable_inv_def)
  from rehash_buckets_ok [OF n0 _ len, of "replicate (unat ?n) []" 0 sg] obtain nb where
    nb: "rehash_buckets sg t ?n 0 (replicate (unat ?n) []) = Inr nb"
        "length nb = length (replicate (unat ?n) ([] :: 'a Binding list))"
        "mset (concat nb) = mset (concat (drop 0 (buckets t))) + mset (concat (replicate (unat ?n) []))"
        "\<forall>j < length (replicate (unat ?n) ([] :: 'a Binding list)). nb ! j =
              rev (filter (\<lambda>b. unat (hash_loop sg (key b) 0 mod ?n) = j)
                     (concat (drop 0 (buckets t)))) @ replicate (unat ?n) [] ! j"
    by auto
  have 1: "SymTable_expand sg c t = Inr (if c then t\<lparr>buckets := nb, numBuckets := ?n\<rparr> else t)"
    using i nb(1) by (simp add: SymTable_expand_def Let_def)
  have 2: "length nb = unat ?n" using nb(2) by simp
  have 3: "mset (concat nb) = mset (bindings t)" using nb(3) by (simp add: bindings_def)
  have 4: "nb ! j = rev (filter (\<lambda>b. unat (hash_loop sg (key b) 0 mod ?n) = j) (bindings t))"
    if "j < length nb" for j
    using nb(4) that 2 by (simp add: bindings_def)
  show ?thesis using i(2) i(3) 1 2 3 4 by blast
qed

lemma rehashed_inv:
  assumes inv: "SymTable_inv sg t"
    and n: "n \<in> set primeBuckCounts"
    and len: "length nb = unat n"
    and ms: "mset (concat nb) = mset (bindings t)"
    and ch: "\<forall>j < length nb. nb ! j =
               rev (filter (\<lambda>b. unat (hash_loop sg (key b) 0 mod n) = j) (bindings t))"
  shows "SymTable_inv sg (t\<lparr>buckets := nb, numBuckets := n\<rparr>)"
proof -
  have n0: "n \<noteq> 0" by (rule primeBuckCounts_nonzero [OF n])
  have ok: "SymTable_hash sg (Some (key b)) n = Inr (of_nat j)"
    if "j < length nb" "b \<in> set (nb ! j)" for j b
  proof -
    have "unat (hash_loop sg (key b) 0 mod n) = j" using that ch by auto
    moreover have "of_nat (unat (hash_loop sg (key b) 0 mod n)) = hash_loop sg (key b) 0 mod n"
      by simp
    ultimately have "hash_loop sg (key b) 0 mod n = of_nat j" by simp
    then show ?thesis by (simp add: SymTable_hash_Some [OF n0])
  qed
  have d: "distinct (map key (concat nb))"
    using inv ms by (metis SymTable_inv_def mset_eq_imp_distinct_iff mset_map)
  have l: "length (concat nb) = length (bindings t)"
    using ms by (metis size_mset)
  show ?thesis
    unfolding SymTable_inv_def
    using inv n len ok d l by (simp add: SymTable_inv_def bindings_def)
qed

section \<open>SymTable_put\<close>

lemma SymTable_put_parts:
  "SymTable_put sg c m1 m2 (Some t) (Some k) v =
     (case put_grow sg c t of Inl e \<Rightarrow> Inl e | Inr t1 \<Rightarrow> put_insert sg m1 m2 t1 k v)"
  by (simp add: SymTable_put_def put_grow_def put_insert_def cong: sum.case_cong)

lemma last_primeBuckCounts:
  "primeBuckCounts ! (length primeBuckCounts - 1) = 65521"
  "primeBuckCounts ! (length primeBuckCounts - Suc 0) = 65521"
  by (simp_all add: primeBuckCounts_def)

lemma same_bindings_lookup:
  assumes "SymTable_inv sg t" "SymTable_inv sg t'" "mset (bindings t') = mset (bindings t)"
  shows "SymTable_get sg (Some t') (Some k) = SymTable_get sg (Some t) (Some k)"
    and "SymTable_contains sg (Some t') (Some k) = SymTable_contains sg (Some t) (Some k)"
proof -
  have d: "distinct (map key (bindings t'))" using assms(2) by (simp add: SymTable_inv_def)
  show "SymTable_get sg (Some t') (Some k) = SymTable_get sg (Some t) (Some k)"
    by (simp add: SymTable_get_bindings assms(1,2) map_of_entry_mset [OF d assms(3)])
  have "set (bindings t') = set (bindings t)" using assms(3) by (rule mset_eq_setD)
  then show "SymTable_contains sg (Some t') (Some k) = SymTable_contains sg (Some t) (Some k)"
    by (simp add: SymTable_contains_bindings assms(1,2))
qed

lemma put_grow_ok:
  assumes inv: "SymTable_inv sg t"
  shows "\<exists>t1. put_grow sg c t = Inr t1 \<and> SymTable_inv sg t1 \<and>
           mset (bindings t1) = mset (bindings t) \<and> length_tbl t1 = length_tbl t \<and>
           (if length_tbl t > numBuckets t \<and> numBuckets t < 65521 \<and> c
            then \<exists>i. i + 1 < length primeBuckCounts \<and> primeBuckCounts ! i = numBuckets t \<and>
                   numBuckets t1 = primeBuckCounts ! (i + 1) \<and>
                   length (buckets t1) = unat (numBuckets t1) \<and>
                   (\<forall>j < length (buckets t1). buckets t1 ! j =
                      rev (filter (\<lambda>b. unat (hash_loop sg (key b) 0 mod numBuckets t1) = j)
                             (bindings t)))
            else t1 = t)"
proof (cases "length_tbl t > numBuckets t \<and> numBuckets t < 65521")
  case False
  then have "put_grow sg c t = Inr t"
    by (auto simp: put_grow_def last_primeBuckCounts)
  then show ?thesis using inv False by auto
next
  case True
  from SymTable_expand_ok [OF inv, of c] True obtain i nb where
    e: "i + 1 < length primeBuckCounts" "primeBuckCounts ! i = numBuckets t"
       "SymTable_expand sg c t =
          Inr (if c then t\<lparr>buckets := nb, numBuckets := primeBuckCounts ! (i + 1)\<rparr> else t)"
       "length nb = unat (primeBuckCounts ! (i + 1))"
       "mset (concat nb) = mset (bindings t)"
       "\<forall>j < length nb. nb ! j =
              rev (filter (\<lambda>b. unat (hash_loop sg (key b) 0 mod primeBuckCounts ! (i + 1)) = j)
                     (bindings t))"
    by blast
  have g: "put_grow sg c t = SymTable_expand sg c t"
    using True by (simp add: put_grow_def last_primeBuckCounts)
  show ?thesis
  proof (cases c)
    case False
    then show ?thesis using g e(3) inv by simp
  next
    case c: True
    let ?t1 = "t\<lparr>buckets := nb, numBuckets := primeBuckCounts ! (i + 1)\<rparr>"
    have inv1: "SymTable_inv sg ?t1"
      by (rule rehashed_inv [OF inv nth_primeBuckCounts_mem [OF e(1)] e(4) e(5) e(6)])
    have 1: "put_grow sg c t = Inr ?t1" using g e(3) c by simp
    have 2: "mset (bindings ?t1) = mset (bindings t)" using e(5) by (simp add: bindings_def)
    have 3: "length_tbl ?t1 = length_tbl t" by simp
    have 4: "\<exists>i. i + 1 < length primeBuckCounts \<and> primeBuckCounts ! i = numBuckets t \<and>
                   numBuckets ?t1 = primeBuckCounts ! (i + 1) \<and>
                   length (buckets ?t1) = unat (numBuckets ?t1) \<and>
                   (\<forall>j < length (buckets ?t1). buckets ?t1 ! j =
                      rev (filter (\<lambda>b. unat (hash_loop sg (key b) 0 mod numBuckets ?t1) = j)
                             (bindings t)))"
      using e(1) e(2) e(4) e(6) by auto
    show ?thesis using 1 inv1 2 3 4 True c by (intro exI [of _ ?t1]) simp
  qed
qed

lemma put_insert_ok:
  assumes inv: "SymTable_inv sg t1"
  shows "put_insert sg m1 m2 t1 k v =
     Inr (if k \<in> key ` set (bindings t1) \<or> \<not> m1 \<or> \<not> m2 then (0, t1)
          else (1, t1\<lparr>buckets := (buckets t1)
                  [bucket_of sg t1 k := \<lparr>key = k, val = v\<rparr> # buckets t1 ! bucket_of sg t1 k],
                length_tbl := length_tbl t1 + 1\<rparr>))"
  using inv_bucket_of_less [OF inv, of k]
  by (simp add: put_insert_def inv_hash [OF inv] contains_loop_iff inv_key_bucket [OF inv]
      bucket_of_def)

lemma put_insert_inv:
  fixes v :: "'v option" and t1 :: "'v SymTable"
  assumes inv: "SymTable_inv sg t1" and fresh: "k \<notin> key ` set (bindings t1)"
  defines "t' \<equiv> t1\<lparr>buckets := (buckets t1)
                  [bucket_of sg t1 k := \<lparr>key = k, val = v\<rparr> # buckets t1 ! bucket_of sg t1 k],
                length_tbl := length_tbl t1 + 1\<rparr>"
  shows "SymTable_inv sg t'"
    and "bindings t' =
           concat (take (bucket_of sg t1 k) (buckets t1)) @
           \<lparr>key = k, val = v\<rparr> # buckets t1 ! bucket_of sg t1 k @
           concat (drop (Suc (bucket_of sg t1 k)) (buckets t1))"
    and "mset (bindings t') = add_mset \<lparr>key = k, val = v\<rparr> (mset (bindings t1))"
proof -
  let ?i = "bucket_of sg t1 k"
  let ?b = "\<lparr>key = k, val = v\<rparr>"
  have i: "?i < length (buckets t1)" by (rule inv_bucket_of_less [OF inv])
  have nk: "k \<notin> key ` set (buckets t1 ! ?i)" using fresh inv_key_bucket [OF inv] by simp
  have m: "mset (concat ((buckets t1)[?i := ?b # buckets t1 ! ?i])) =
           add_mset ?b (mset (concat (buckets t1)))"
    by (rule mset_concat_push [OF i])
  then have "length (concat ((buckets t1)[?i := ?b # buckets t1 ! ?i])) =
             Suc (length (concat (buckets t1)))"
    by (metis size_mset size_add_mset)
  then have L: "length_tbl t1 + 1 =
                of_nat (length (concat ((buckets t1)[?i := ?b # buckets t1 ! ?i])))"
    using inv by (simp add: SymTable_inv_def bindings_def)
  show "SymTable_inv sg t'"
    unfolding t'_def
  proof (rule inv_update [OF inv _ _ L])
    show "key ` set (?b # buckets t1 ! ?i) \<subseteq> insert k (key ` set (buckets t1 ! ?i))"
      by auto
    show "distinct (map key (?b # buckets t1 ! ?i))"
      using inv_distinct_bucket [OF inv i] nk by simp
  qed
  show "bindings t' = concat (take ?i (buckets t1)) @ ?b # buckets t1 ! ?i @
           concat (drop (Suc ?i) (buckets t1))"
    using concat_update_split [OF i, of "?b # buckets t1 ! ?i"] by (simp add: bindings_def t'_def)
  show "mset (bindings t') = add_mset ?b (mset (bindings t1))"
    using m by (simp add: bindings_def t'_def)
qed

lemma SymTable_new_eq:
  "SymTable_new True True = Some \<lparr>buckets = replicate 509 [], length_tbl = 0, numBuckets = 509\<rparr>"
  by (simp add: SymTable_new_def primeBuckCounts_def)

lemma SymTable_new_inv:
  assumes "SymTable_new m c = Some t"
  shows "SymTable_inv sg t" "bindings t = []" "numBuckets t = 509" "length_tbl t = 0"
proof -
  have t: "t = \<lparr>buckets = replicate 509 [], length_tbl = 0, numBuckets = 509\<rparr>"
    using assms by (simp add: SymTable_new_def primeBuckCounts_def split: if_splits)
  show "bindings t = []" by (simp add: t bindings_def)
  then show "SymTable_inv sg t"
    by (simp add: SymTable_inv_def) (simp add: t primeBuckCounts_def)
  show "numBuckets t = 509" "length_tbl t = 0" by (simp_all add: t)
qed

lemma SymTable_put_ok:
  assumes inv: "SymTable_inv sg t"
  shows "\<exists>t1 r t'. put_grow sg c t = Inr t1 \<and> SymTable_inv sg t1 \<and>
           mset (bindings t1) = mset (bindings t) \<and> length_tbl t1 = length_tbl t \<and>
           SymTable_put sg c m1 m2 (Some t) (Some k) v = Inr (r, t') \<and> SymTable_inv sg t' \<and>
           numBuckets t' = numBuckets t1 \<and>
           (if k \<in> key ` set (bindings t) \<or> \<not> m1 \<or> \<not> m2 then r = 0 \<and> t' = t1
            else r = 1 \<and>
                 t' = t1\<lparr>buckets := (buckets t1)
                        [bucket_of sg t1 k := \<lparr>key = k, val = v\<rparr> # buckets t1 ! bucket_of sg t1 k],
                      length_tbl := length_tbl t1 + 1\<rparr> \<and>
                 mset (bindings t') = add_mset \<lparr>key = k, val = v\<rparr> (mset (bindings t)) \<and>
                 length_tbl t' = length_tbl t + 1)"
proof -
  from put_grow_ok [OF inv, of c] obtain t1 where
    g: "put_grow sg c t = Inr t1" "SymTable_inv sg t1" "mset (bindings t1) = mset (bindings t)"
       "length_tbl t1 = length_tbl t"
    by blast
  have keys: "key ` set (bindings t1) = key ` set (bindings t)"
    using mset_eq_setD [OF g(3)] by simp
  let ?t2 = "t1\<lparr>buckets := (buckets t1)
                 [bucket_of sg t1 k := \<lparr>key = k, val = v\<rparr> # buckets t1 ! bucket_of sg t1 k],
               length_tbl := length_tbl t1 + 1\<rparr>"
  show ?thesis
  proof (cases "k \<in> key ` set (bindings t) \<or> \<not> m1 \<or> \<not> m2")
    case True
    then have "SymTable_put sg c m1 m2 (Some t) (Some k) v = Inr (0, t1)"
      using keys by (auto simp: SymTable_put_parts g(1) put_insert_ok [OF g(2)])
    then show ?thesis using g True by auto
  next
    case False
    then have fresh: "k \<notin> key ` set (bindings t1)" using keys by simp
    have p: "SymTable_put sg c m1 m2 (Some t) (Some k) v = Inr (1, ?t2)"
      using False keys by (simp add: SymTable_put_parts g(1) put_insert_ok [OF g(2)])
    have i2: "SymTable_inv sg ?t2" by (rule put_insert_inv(1) [OF g(2) fresh])
    have m2: "mset (bindings ?t2) = add_mset \<lparr>key = k, val = v\<rparr> (mset (bindings t))"
      using put_insert_inv(3) [OF g(2) fresh, of v] g(3) by simp
    show ?thesis
      using g p i2 m2 False by (intro exI [of _ t1] exI [of _ 1] exI [of _ ?t2]) simp
  qed
qed

section \<open>Insertion: growth and duplicate keys\<close>

lemma put_preserves_bound:
  assumes inv: "SymTable_inv sg t"
    and put: "SymTable_put sg c m1 m2 (Some t) (Some k) v = Inr (r, t')"
    and bound: "SymTable_contains sg (Some t) (Some k') = Inr 1"
  shows "SymTable_get sg (Some t') (Some k') = SymTable_get sg (Some t) (Some k')"
    and "SymTable_contains sg (Some t') (Some k') = Inr 1"
proof -
  from SymTable_put_ok [OF inv, of c m1 m2 k v] put obtain t1 where
    g: "SymTable_inv sg t1" "mset (bindings t1) = mset (bindings t)" "SymTable_inv sg t'"
       "if k \<in> key ` set (bindings t) \<or> \<not> m1 \<or> \<not> m2 then t' = t1
        else mset (bindings t') = add_mset \<lparr>key = k, val = v\<rparr> (mset (bindings t))"
    by (auto split: if_splits)
  have k': "k' \<in> key ` set (bindings t)"
    using bound by (simp add: SymTable_contains_bindings [OF inv] split: if_splits)
  have "SymTable_get sg (Some t') (Some k') = SymTable_get sg (Some t) (Some k') \<and>
        SymTable_contains sg (Some t') (Some k') = Inr 1"
  proof (cases "k \<in> key ` set (bindings t) \<or> \<not> m1 \<or> \<not> m2")
    case True
    then have "t' = t1" using g(4) by simp
    then show ?thesis
      using same_bindings_lookup [OF inv g(1) g(2), of k'] bound by simp
  next
    case False
    then have m: "mset (bindings t') = add_mset \<lparr>key = k, val = v\<rparr> (mset (bindings t))"
      using g(4) by simp
    then have s: "set (bindings t') = insert \<lparr>key = k, val = v\<rparr> (set (bindings t))"
      by (metis set_mset_add_mset_insert set_mset_mset)
    have ne: "k' \<noteq> k" using False k' by auto
    have d: "distinct (map key (bindings t))" "distinct (map key (bindings t'))"
      using inv g(3) by (simp_all add: SymTable_inv_def)
    have "map_of (map entry (bindings t')) k' = Some x \<longleftrightarrow>
          map_of (map entry (bindings t)) k' = Some x" for x
      using ne by (auto simp: map_of_entry_Some d s)
    then have "map_of (map entry (bindings t')) k' = map_of (map entry (bindings t)) k'"
      by (metis option.exhaust)
    then show ?thesis
      using k' s by (simp add: SymTable_get_bindings SymTable_contains_bindings inv g(3))
  qed
  then show "SymTable_get sg (Some t') (Some k') = SymTable_get sg (Some t) (Some k')"
    and "SymTable_contains sg (Some t') (Some k') = Inr 1"
    by simp_all
qed

text \<open>
  Claim C1. When an insertion finds more bindings than buckets and the bucket count is
  below 65521 (and the new array can be allocated), the expansion moves the table to the
  next bucket count of the sequence, whichever boundary that is; the expanded table holds
  the same bindings, each in the chain of its hash under the new bucket count (the
  invariant), and the same binding count; \<open>SymTable_get\<close> and \<open>SymTable_contains\<close>
  answer as before for every key; and after the whole insertion every key bound before
  is still bound to the value it had.
\<close>

theorem SymTable_put_growth_transparent:
  assumes inv: "SymTable_inv sg t"
    and over: "numBuckets t < length_tbl t"
    and below: "numBuckets t < 65521"
  shows "\<exists>i t1 r t'.
           i + 1 < length primeBuckCounts \<and> primeBuckCounts ! i = numBuckets t \<and>
           SymTable_expand sg True t = Inr t1 \<and>
           numBuckets t1 = primeBuckCounts ! (i + 1) \<and>
           SymTable_inv sg t1 \<and>
           mset (bindings t1) = mset (bindings t) \<and>
           length_tbl t1 = length_tbl t \<and>
           (\<forall>k'. SymTable_get sg (Some t1) (Some k') = SymTable_get sg (Some t) (Some k') \<and>
                 SymTable_contains sg (Some t1) (Some k') =
                   SymTable_contains sg (Some t) (Some k')) \<and>
           SymTable_put sg True m1 m2 (Some t) (Some k) v = Inr (r, t') \<and>
           numBuckets t' = primeBuckCounts ! (i + 1) \<and>
           (\<forall>k'. SymTable_contains sg (Some t) (Some k') = Inr 1 \<longrightarrow>
                 SymTable_get sg (Some t') (Some k') = SymTable_get sg (Some t) (Some k') \<and>
                 SymTable_contains sg (Some t') (Some k') = Inr 1)"
proof -
  from SymTable_put_ok [OF inv, of True m1 m2 k v] obtain t1 r t' where
    p: "put_grow sg True t = Inr t1" "SymTable_inv sg t1"
       "mset (bindings t1) = mset (bindings t)" "length_tbl t1 = length_tbl t"
       "SymTable_put sg True m1 m2 (Some t) (Some k) v = Inr (r, t')"
       "numBuckets t' = numBuckets t1"
    by blast
  from put_grow_ok [OF inv, of True] p(1) over below obtain i where
    i: "i + 1 < length primeBuckCounts" "primeBuckCounts ! i = numBuckets t"
       "numBuckets t1 = primeBuckCounts ! (i + 1)"
    by auto
  have e: "SymTable_expand sg True t = Inr t1"
    using p(1) over below by (simp add: put_grow_def last_primeBuckCounts)
  have l: "\<forall>k'. SymTable_get sg (Some t1) (Some k') = SymTable_get sg (Some t) (Some k') \<and>
                 SymTable_contains sg (Some t1) (Some k') =
                   SymTable_contains sg (Some t) (Some k')"
    using same_bindings_lookup [OF inv p(2) p(3)] by simp
  have q: "\<forall>k'. SymTable_contains sg (Some t) (Some k') = Inr 1 \<longrightarrow>
                 SymTable_get sg (Some t') (Some k') = SymTable_get sg (Some t) (Some k') \<and>
                 SymTable_contains sg (Some t') (Some k') = Inr 1"
    using put_preserves_bound [OF inv p(5)] by simp
  show ?thesis
    using i e p(2) p(3) p(4) l p(5) p(6) q by (intro exI [of _ i] exI [of _ t1] exI [of _ r] exI [of _ t']) simp
qed

text \<open>
  What the insertion of a key that is already bound keeps, and what it changes. It
  returns 0, whatever the value and whatever the allocator does, and changes no binding:
  the binding count is the same, the bindings are the same (as a multiset of key and
  value), and \<open>SymTable_get\<close> and \<open>SymTable_contains\<close> answer as before for every
  key. In symtablelist.c the table is left identical. In symtablehash.c the table is left
  identical unless a growth is due: the growth check comes before the search for the key,
  so when the binding count exceeds the bucket count, the bucket count is below 65521 and
  the allocation succeeds, the table left is the expanded one, with the next bucket count
  and its chains rebuilt.
\<close>

lemma SymTable_put_duplicate:
  "(SymTable_inv sg t \<and> SymTable_contains sg (Some t) (Some k) = Inr 1 \<longrightarrow>
      (\<exists>t'. SymTable_put sg c m1 m2 (Some t) (Some k) v = Inr (0, t') \<and>
            SymTable_inv sg t' \<and>
            length_tbl t' = length_tbl t \<and>
            mset (bindings t') = mset (bindings t) \<and>
            (\<forall>k'. SymTable_get sg (Some t') (Some k') = SymTable_get sg (Some t) (Some k') \<and>
                  SymTable_contains sg (Some t') (Some k') =
                    SymTable_contains sg (Some t) (Some k')) \<and>
            (\<not> (numBuckets t < length_tbl t \<and> numBuckets t < 65521 \<and> c) \<longrightarrow> t' = t) \<and>
            (numBuckets t < length_tbl t \<and> numBuckets t < 65521 \<and> c \<longrightarrow>
               SymTable_expand sg c t = Inr t' \<and>
               (\<exists>i. i + 1 < length primeBuckCounts \<and> primeBuckCounts ! i = numBuckets t \<and>
                    numBuckets t' = primeBuckCounts ! (i + 1))))) \<and>
   (SymTable_contains_list (Some l) (Some k) = Inr 1 \<longrightarrow>
      SymTable_put_list m1 m2 (Some l) (Some k) v = Inr (0, l))"
proof (intro conjI impI)
  assume a: "SymTable_inv sg t \<and> SymTable_contains sg (Some t) (Some k) = Inr 1"
  then have inv: "SymTable_inv sg t" by simp
  have k: "k \<in> key ` set (bindings t)"
    using a by (simp add: SymTable_contains_bindings [OF inv] split: if_splits)
  from SymTable_put_ok [OF inv, of c m1 m2 k v] k obtain t1 where
    p: "put_grow sg c t = Inr t1" "SymTable_inv sg t1"
       "mset (bindings t1) = mset (bindings t)" "length_tbl t1 = length_tbl t"
       "SymTable_put sg c m1 m2 (Some t) (Some k) v = Inr (0, t1)"
    by auto
  have l: "\<forall>k'. SymTable_get sg (Some t1) (Some k') = SymTable_get sg (Some t) (Some k') \<and>
                 SymTable_contains sg (Some t1) (Some k') =
                   SymTable_contains sg (Some t) (Some k')"
    using same_bindings_lookup [OF inv p(2) p(3)] by simp
  have u: "\<not> (numBuckets t < length_tbl t \<and> numBuckets t < 65521 \<and> c) \<longrightarrow> t1 = t"
    using put_grow_ok [OF inv, of c] p(1) by auto
  have g: "numBuckets t < length_tbl t \<and> numBuckets t < 65521 \<and> c \<longrightarrow>
               SymTable_expand sg c t = Inr t1 \<and>
               (\<exists>i. i + 1 < length primeBuckCounts \<and> primeBuckCounts ! i = numBuckets t \<and>
                    numBuckets t1 = primeBuckCounts ! (i + 1))"
  proof
    assume o: "numBuckets t < length_tbl t \<and> numBuckets t < 65521 \<and> c"
    then have "SymTable_expand sg c t = Inr t1"
      using p(1) by (simp add: put_grow_def last_primeBuckCounts)
    moreover have "\<exists>i. i + 1 < length primeBuckCounts \<and> primeBuckCounts ! i = numBuckets t \<and>
                    numBuckets t1 = primeBuckCounts ! (i + 1)"
      using put_grow_ok [OF inv, of c] p(1) o by auto
    ultimately show "SymTable_expand sg c t = Inr t1 \<and>
               (\<exists>i. i + 1 < length primeBuckCounts \<and> primeBuckCounts ! i = numBuckets t \<and>
                    numBuckets t1 = primeBuckCounts ! (i + 1))"
      by simp
  qed
  show "\<exists>t'. SymTable_put sg c m1 m2 (Some t) (Some k) v = Inr (0, t') \<and>
            SymTable_inv sg t' \<and>
            length_tbl t' = length_tbl t \<and>
            mset (bindings t') = mset (bindings t) \<and>
            (\<forall>k'. SymTable_get sg (Some t') (Some k') = SymTable_get sg (Some t) (Some k') \<and>
                  SymTable_contains sg (Some t') (Some k') =
                    SymTable_contains sg (Some t) (Some k')) \<and>
            (\<not> (numBuckets t < length_tbl t \<and> numBuckets t < 65521 \<and> c) \<longrightarrow> t' = t) \<and>
            (numBuckets t < length_tbl t \<and> numBuckets t < 65521 \<and> c \<longrightarrow>
               SymTable_expand sg c t = Inr t' \<and>
               (\<exists>i. i + 1 < length primeBuckCounts \<and> primeBuckCounts ! i = numBuckets t \<and>
                    numBuckets t' = primeBuckCounts ! (i + 1)))"
    using p(5) p(2) p(4) p(3) l u g by (intro exI [of _ t1] conjI)
next
  assume "SymTable_contains_list (Some l) (Some k) = Inr 1"
  then show "SymTable_put_list m1 m2 (Some l) (Some k) v = Inr (0, l)"
    by (simp add: SymTable_contains_list_def SymTable_put_list_def split: if_splits)
qed

text \<open>
  Claim C3, amended. \<open>SymTable_put\<close> begins with \<open>put_grow\<close>, which calls
  \<open>SymTable_expand\<close> exactly when the binding count exceeds the bucket count and the
  bucket count is below 65521. The insertion leaves the table at the next bucket count of
  the sequence when the expansion is called and its \<open>calloc\<close> succeeds; in every
  other case (count not above the bucket count, bucket count already 65521, or the
  allocation failed) the bucket count stays as it is and the insertion goes on.
\<close>

theorem SymTable_put_growth_policy:
  assumes inv: "SymTable_inv sg t"
  shows "\<exists>r t'.
           SymTable_put sg c m1 m2 (Some t) (Some k) v = Inr (r, t') \<and>
           put_grow sg c t =
             (if numBuckets t < length_tbl t \<and> numBuckets t < 65521
              then SymTable_expand sg c t else Inr t) \<and>
           (if numBuckets t < length_tbl t \<and> numBuckets t < 65521 \<and> c
            then \<exists>i. i + 1 < length primeBuckCounts \<and> primeBuckCounts ! i = numBuckets t \<and>
                     numBuckets t' = primeBuckCounts ! (i + 1)
            else numBuckets t' = numBuckets t)"
proof -
  from SymTable_put_ok [OF inv, of c m1 m2 k v] obtain t1 r t' where
    p: "put_grow sg c t = Inr t1"
       "SymTable_put sg c m1 m2 (Some t) (Some k) v = Inr (r, t')"
       "numBuckets t' = numBuckets t1"
    by blast
  have g: "put_grow sg c t =
             (if numBuckets t < length_tbl t \<and> numBuckets t < 65521
              then SymTable_expand sg c t else Inr t)"
    by (simp add: put_grow_def last_primeBuckCounts)
  have n: "if numBuckets t < length_tbl t \<and> numBuckets t < 65521 \<and> c
            then \<exists>i. i + 1 < length primeBuckCounts \<and> primeBuckCounts ! i = numBuckets t \<and>
                     numBuckets t' = primeBuckCounts ! (i + 1)
            else numBuckets t' = numBuckets t"
    using put_grow_ok [OF inv, of c] p(1) p(3) by (auto split: if_splits)
  show ?thesis using p(2) g n by blast
qed

section \<open>Example tables\<close>

lemma no_growth_word:
  fixes w :: size_t
  assumes "n \<le> unat w"
  shows "\<not> w < of_nat n"
proof -
  have "n < 2 ^ LENGTH(64)"
    using assms unsigned_less [of w, where ?'a = nat] by simp
  then have "unat (of_nat n :: size_t) = n" by (simp add: unat_of_nat)
  then show ?thesis using assms by (simp add: word_less_nat_alt)
qed

lemma put_fresh_no_grow:
  assumes inv: "SymTable_inv sg t"
    and small: "length (bindings t) \<le> unat (numBuckets t)"
    and fresh: "k \<notin> key ` set (bindings t)"
  shows "\<exists>t' X Y. SymTable_put sg c True True (Some t) (Some k) v = Inr (1, t') \<and>
           SymTable_inv sg t' \<and> numBuckets t' = numBuckets t \<and>
           bindings t = X @ Y \<and> bindings t' = X @ \<lparr>key = k, val = v\<rparr> # Y \<and>
           (\<forall>x \<in> set X. bucket_of sg t (key x) \<noteq> bucket_of sg t k)"
proof -
  let ?i = "bucket_of sg t k"
  let ?b = "\<lparr>key = k, val = v\<rparr>"
  let ?X = "concat (take ?i (buckets t))"
  let ?Y = "buckets t ! ?i @ concat (drop (Suc ?i) (buckets t))"
  have i: "?i < length (buckets t)" by (rule inv_bucket_of_less [OF inv])
  have "length_tbl t = of_nat (length (bindings t))" using inv by (simp add: SymTable_inv_def)
  then have ng: "\<not> numBuckets t < length_tbl t" using no_growth_word [OF small] by simp
  from put_grow_ok [OF inv, of c] ng have g: "put_grow sg c t = Inr t" by auto
  from SymTable_put_ok [OF inv, of c True True k v] fresh g obtain t' where
    p: "SymTable_put sg c True True (Some t) (Some k) v = Inr (1, t')" "SymTable_inv sg t'"
       "numBuckets t' = numBuckets t"
       "t' = t\<lparr>buckets := (buckets t)[?i := ?b # buckets t ! ?i],
                length_tbl := length_tbl t + 1\<rparr>"
    by auto
  have 1: "bindings t = ?X @ ?Y"
    using concat_nth_split [OF i] by (simp add: bindings_def)
  have 2: "bindings t' = ?X @ ?b # ?Y"
    unfolding p(4) by (rule put_insert_inv(2) [OF inv fresh])
  have 3: "\<forall>x \<in> set ?X. bucket_of sg t (key x) \<noteq> ?i"
  proof
    fix x assume x: "x \<in> set ?X"
    obtain j where j: "j < length (buckets t)" "j \<noteq> ?i" "x \<in> set (buckets t ! j)"
      using in_concat_take [OF x] by blast
    then show "bucket_of sg t (key x) \<noteq> ?i" using inv_bucketD [OF inv j(1) j(3)] by simp
  qed
  show ?thesis using p(1) p(2) p(3) 1 2 3 by blast
qed

lemma put_all_fresh:
  assumes "SymTable_inv sg t"
    and "length (bindings t) + length kvs \<le> Suc (unat (numBuckets t))"
    and "distinct (map fst kvs)"
    and "fst ` set kvs \<inter> key ` set (bindings t) = {}"
    and "fst ` set kvs \<inter> S = {}"
  shows "SymTable_inv sg (put_all sg t kvs) \<and>
         numBuckets (put_all sg t kvs) = numBuckets t \<and>
         mset (bindings (put_all sg t kvs)) =
           mset (bindings t) + mset (map (\<lambda>(k, v). \<lparr>key = k, val = v\<rparr>) kvs) \<and>
         filter (keys_in S) (bindings (put_all sg t kvs)) = filter (keys_in S) (bindings t)"
  using assms
proof (induction kvs arbitrary: t)
  case Nil
  then show ?case by simp
next
  case (Cons kv kvs)
  obtain k v where kv: "kv = (k, v)" by (cases kv)
  have small: "length (bindings t) \<le> unat (numBuckets t)" using Cons.prems(2) by simp
  have fresh: "k \<notin> key ` set (bindings t)" using Cons.prems(4) kv by auto
  from put_fresh_no_grow [OF Cons.prems(1) small fresh, where c = True and v = v] obtain t' X Y where
    p: "SymTable_put sg True True True (Some t) (Some k) v = Inr (1, t')"
       "SymTable_inv sg t'" "numBuckets t' = numBuckets t"
       "bindings t = X @ Y" "bindings t' = X @ \<lparr>key = k, val = v\<rparr> # Y"
    by blast
  have pa: "put_all sg t (kv # kvs) = put_all sg t' kvs" using p(1) kv by simp
  have a2: "length (bindings t') + length kvs \<le> Suc (unat (numBuckets t'))"
    using Cons.prems(2) p(3) p(4) p(5) by simp
  have a3: "distinct (map fst kvs)" using Cons.prems(3) by simp
  have a4: "fst ` set kvs \<inter> key ` set (bindings t') = {}"
    using Cons.prems(3) Cons.prems(4) p(4) p(5) kv by auto
  have a5: "fst ` set kvs \<inter> S = {}" using Cons.prems(5) by auto
  have kS: "k \<notin> S" using Cons.prems(5) kv by auto
  from Cons.IH [OF p(2) a2 a3 a4 a5]
  have ih: "SymTable_inv sg (put_all sg t' kvs)"
    "numBuckets (put_all sg t' kvs) = numBuckets t'"
    "mset (bindings (put_all sg t' kvs)) =
       mset (bindings t') + mset (map (\<lambda>(k, v). \<lparr>key = k, val = v\<rparr>) kvs)"
    "filter (keys_in S) (bindings (put_all sg t' kvs)) = filter (keys_in S) (bindings t')"
    by simp_all
  have f: "filter (keys_in S) (bindings t') = filter (keys_in S) (bindings t)"
    using kS by (simp add: p(4) p(5) keys_in_def)
  have m: "mset (bindings t') = add_mset \<lparr>key = k, val = v\<rparr> (mset (bindings t))"
    by (simp add: p(4) p(5))
  show ?case
    unfolding pa using ih f m p(3) by (simp add: kv)
qed

lemma empty_table_new: "SymTable_new True True = Some empty_table"
  by (simp add: SymTable_new_eq empty_table_def)

lemma empty_table_inv:
  "SymTable_inv sg empty_table" "bindings empty_table = []" "numBuckets empty_table = 509"
  using SymTable_new_inv [OF empty_table_new] by simp_all

lemma bucket_of_bbvw: "numBuckets t = 509 \<Longrightarrow> bucket_of False t ''bbvw'' = 320"
  by (simp add: bucket_of_def char_to_size_t_def)

lemma bucket_of_kebb: "numBuckets t = 509 \<Longrightarrow> bucket_of False t ''kebb'' = 320"
  by (simp add: bucket_of_def char_to_size_t_def)

lemma table2_facts:
  "SymTable_inv False table2" "numBuckets table2 = 509"
  "bindings table2 = [\<lparr>key = ''kebb'', val = Some 20\<rparr>, \<lparr>key = ''bbvw'', val = Some 10\<rparr>]"
proof -
  have s0: "length (bindings empty_table) \<le> unat (numBuckets empty_table)"
    by (simp add: empty_table_inv)
  have f0: "''bbvw'' \<notin> key ` set (bindings empty_table)" by (simp add: empty_table_inv)
  from put_fresh_no_grow [OF empty_table_inv(1) s0 f0, where c = True and v = "Some 10"] obtain t1 where
    p1: "SymTable_put False True True True (Some empty_table) (Some ''bbvw'') (Some 10) = Inr (1, t1)"
        "SymTable_inv False t1" "numBuckets t1 = 509"
        "bindings t1 = [\<lparr>key = ''bbvw'', val = Some 10\<rparr>]"
    by (auto simp: empty_table_inv)
  have s1: "length (bindings t1) \<le> unat (numBuckets t1)" by (simp add: p1)
  have f1: "''kebb'' \<notin> key ` set (bindings t1)" by (simp add: p1)
  from put_fresh_no_grow [OF p1(2) s1 f1, where c = True and v = "Some 20"] obtain t2 X Y where
    p2: "SymTable_put False True True True (Some t1) (Some ''kebb'') (Some 20) = Inr (1, t2)"
        "SymTable_inv False t2" "numBuckets t2 = numBuckets t1"
        "bindings t1 = X @ Y" "bindings t2 = X @ \<lparr>key = ''kebb'', val = Some 20\<rparr> # Y"
        "\<forall>x \<in> set X. bucket_of False t1 (key x) \<noteq> bucket_of False t1 ''kebb''"
    by blast
  have "X = []"
  proof (cases X)
    case Nil
    then show ?thesis .
  next
    case (Cons x xs)
    then have "x = \<lparr>key = ''bbvw'', val = Some 10\<rparr>" using p2(4) p1(4) by simp
    then have "bucket_of False t1 ''bbvw'' \<noteq> bucket_of False t1 ''kebb''"
      using p2(6) Cons by simp
    then show ?thesis by (simp add: bucket_of_bbvw [OF p1(3)] bucket_of_kebb [OF p1(3)])
  qed
  then have b2: "bindings t2 = [\<lparr>key = ''kebb'', val = Some 20\<rparr>, \<lparr>key = ''bbvw'', val = Some 10\<rparr>]"
    using p2(4) p2(5) p1(4) by simp
  have t2: "table2 = t2" by (simp add: table2_def p1(1) p2(1))
  show "SymTable_inv False table2" "numBuckets table2 = 509"
    "bindings table2 = [\<lparr>key = ''kebb'', val = Some 20\<rparr>, \<lparr>key = ''bbvw'', val = Some 10\<rparr>]"
    using p2(2) p2(3) p1(3) b2 by (simp_all add: t2)
qed

lemma a_keys_distinct: "distinct (map fst (a_keys n))"
proof -
  have "inj_on (\<lambda>i. replicate i CHR ''a'') {0..<n}"
    by (rule inj_onI) (metis length_replicate)
  then show ?thesis by (simp add: a_keys_def comp_def distinct_map)
qed

lemma a_keys_fst: "k \<in> fst ` set (a_keys n) \<Longrightarrow> set k \<subseteq> {CHR ''a''}"
  by (auto simp: a_keys_def)

lemma a_keys_other:
  "''bbvw'' \<notin> fst ` set (a_keys n)" "''kebb'' \<notin> fst ` set (a_keys n)"
  using a_keys_fst [of "''bbvw''" n] a_keys_fst [of "''kebb''" n] by auto

lemma table510_facts:
  "SymTable_inv False table510" "numBuckets table510 = 509" "length_tbl table510 = 510"
  "length (bindings table510) = 510"
  "filter (keys_in {''bbvw'', ''kebb''}) (bindings table510) =
     [\<lparr>key = ''kebb'', val = Some 20\<rparr>, \<lparr>key = ''bbvw'', val = Some 10\<rparr>]"
  "mset (bindings table510) =
     mset (bindings table2) + mset (map (\<lambda>(k, v). \<lparr>key = k, val = v\<rparr>) (a_keys 508))"
proof -
  have 1: "length (bindings table2) + length (a_keys 508) \<le> Suc (unat (numBuckets table2))"
    by (simp add: table2_facts a_keys_def)
  have 2: "fst ` set (a_keys 508) \<inter> key ` set (bindings table2) = {}"
    by (simp add: table2_facts a_keys_other)
  have 3: "fst ` set (a_keys 508) \<inter> {''bbvw'', ''kebb''} = {}"
    by (simp add: a_keys_other)
  note r = put_all_fresh [OF table2_facts(1) 1 a_keys_distinct 2 3, folded table510_def]
  show i: "SymTable_inv False table510" and "numBuckets table510 = 509" using r table2_facts by simp_all
  show m: "mset (bindings table510) =
     mset (bindings table2) + mset (map (\<lambda>(k, v). \<lparr>key = k, val = v\<rparr>) (a_keys 508))"
    using r by simp
  have "size (mset (bindings table510)) = 510"
    unfolding m by (simp add: table2_facts a_keys_def)
  then show l: "length (bindings table510) = 510" by simp
  show "length_tbl table510 = 510" using i l by (simp add: SymTable_inv_def)
  show "filter (keys_in {''bbvw'', ''kebb''}) (bindings table510) =
     [\<lparr>key = ''kebb'', val = Some 20\<rparr>, \<lparr>key = ''bbvw'', val = Some 10\<rparr>]"
    using r by (simp add: table2_facts keys_in_def)
qed

section \<open>Removal\<close>

lemma SymTable_remove_list_bound:
  assumes inv: "list_inv l"
    and bound: "SymTable_contains_list (Some l) (Some k) = Inr 1"
  shows "\<exists>v l' xs b ys.
           SymTable_remove_list (Some l) (Some k) = Inr (v, l') \<and>
           SymTable_get_list (Some l) (Some k) = Inr v \<and>
           firstBinding l = xs @ b # ys \<and> key b = k \<and> val b = v \<and>
           k \<notin> key ` set xs \<and>
           firstBinding l' = xs @ ys \<and>
           length_list l' = length_list l - 1 \<and>
           Suc (length (firstBinding l')) = length (firstBinding l) \<and>
           SymTable_contains_list (Some l') (Some k) = Inr 0 \<and>
           list_inv l'"
proof -
  have "contains_loop (firstBinding l) k"
    using bound by (simp add: SymTable_contains_list_def split: if_splits)
  then have "remove_loop (firstBinding l) k \<noteq> None"
    by (simp add: remove_loop_None contains_loop_iff)
  then obtain v bs where r: "remove_loop (firstBinding l) k = Some (v, bs)" by auto
  from remove_loop_Some [OF r] obtain xs b ys where
    d: "firstBinding l = xs @ b # ys" "bs = xs @ ys" "key b = k" "val b = v"
       "k \<notin> key ` set xs"
    by blast
  define l' where "l' = l\<lparr>firstBinding := xs @ ys, length_list := length_list l - 1\<rparr>"
  have rem: "SymTable_remove_list (Some l) (Some k) = Inr (v, l')"
    by (simp add: SymTable_remove_list_def r d(2) l'_def)
  have get: "SymTable_get_list (Some l) (Some k) = Inr v"
    by (simp add: SymTable_get_list_def d(1) get_loop_split [OF d(5) d(3)] d(4))
  have dist: "distinct (map key (xs @ b # ys))" using inv d(1) by (simp add: list_inv_def)
  have nk: "k \<notin> key ` set (xs @ ys)" using dist d(3) by auto
  have con: "SymTable_contains_list (Some l') (Some k) = Inr 0"
    using nk by (simp add: SymTable_contains_list_def contains_loop_iff l'_def)
  have len: "length (firstBinding l) = Suc (length (xs @ ys))" by (simp add: d(1))
  have inv': "list_inv l'"
    using inv dist by (simp add: list_inv_def l'_def of_nat_pred_word [OF len])
  have b1: "firstBinding l' = xs @ ys" "length_list l' = length_list l - 1"
    "Suc (length (firstBinding l')) = length (firstBinding l)"
    by (simp_all add: l'_def d(1))
  show ?thesis
    using rem get d(1) d(3) d(4) d(5) b1 con inv' by blast
qed

text \<open>
  Claim C5. In a table whose invariant holds, removing a key that is bound returns the
  value stored for it (the value \<open>SymTable_get\<close> returned before), unlinks exactly that
  binding from its chain, wherever it stands in the chain, lowers the binding count by one,
  and leaves a table in which \<open>SymTable_contains\<close> is 0 for the key. This holds in
  symtablehash.c and in symtablelist.c.
\<close>

theorem SymTable_remove_bound:
  "(SymTable_inv sg t \<and> SymTable_contains sg (Some t) (Some k) = Inr 1 \<longrightarrow>
      (\<exists>v t' xs b ys.
           SymTable_remove sg (Some t) (Some k) = Inr (v, t') \<and>
           SymTable_get sg (Some t) (Some k) = Inr v \<and>
           buckets t ! bucket_of sg t k = xs @ b # ys \<and> key b = k \<and> val b = v \<and>
           k \<notin> key ` set xs \<and>
           buckets t' = (buckets t)[bucket_of sg t k := xs @ ys] \<and>
           numBuckets t' = numBuckets t \<and>
           length_tbl t' = length_tbl t - 1 \<and>
           Suc (length (bindings t')) = length (bindings t) \<and>
           SymTable_contains sg (Some t') (Some k) = Inr 0 \<and>
           SymTable_inv sg t')) \<and>
   (list_inv l \<and> SymTable_contains_list (Some l) (Some k) = Inr 1 \<longrightarrow>
      (\<exists>v l' xs b ys.
           SymTable_remove_list (Some l) (Some k) = Inr (v, l') \<and>
           SymTable_get_list (Some l) (Some k) = Inr v \<and>
           firstBinding l = xs @ b # ys \<and> key b = k \<and> val b = v \<and>
           k \<notin> key ` set xs \<and>
           firstBinding l' = xs @ ys \<and>
           length_list l' = length_list l - 1 \<and>
           Suc (length (firstBinding l')) = length (firstBinding l) \<and>
           SymTable_contains_list (Some l') (Some k) = Inr 0 \<and>
           list_inv l'))"
  using SymTable_remove_hash_bound [of sg t k] SymTable_remove_list_bound [of l k]
  by blast

lemma table2_lookup:
  "SymTable_contains False (Some table2) (Some ''bbvw'') = Inr 1"
  "SymTable_get False (Some table2) (Some ''bbvw'') = Inr (Some 10)"
  "length_tbl table2 = 2"
  using table2_facts(1)
  by (simp_all add: SymTable_contains_bindings SymTable_get_bindings table2_facts entry_def
      SymTable_inv_def)

lemma list2_facts:
  "list_inv list2"
  "SymTable_contains_list (Some list2) (Some ''bbvw'') = Inr 1"
  by (simp_all add: list_inv_def list2_def SymTable_contains_list_def)

text \<open>The key \<open>bbvw\<close> is the second binding of its chain in \<open>table2\<close> and of the list
  \<open>list2\<close>: removing it returns its value 10 and leaves one binding.\<close>

theorem SymTable_remove_bound_witness:
  "SymTable_inv False table2 \<and>
   SymTable_contains False (Some table2) (Some ''bbvw'') = Inr 1 \<and>
   (\<exists>t'. SymTable_remove False (Some table2) (Some ''bbvw'') = Inr (Some 10, t') \<and>
         length_tbl t' = 1 \<and> SymTable_contains False (Some t') (Some ''bbvw'') = Inr 0) \<and>
   list_inv list2 \<and>
   SymTable_contains_list (Some list2) (Some ''bbvw'') = Inr 1 \<and>
   (\<exists>l'. SymTable_remove_list (Some list2) (Some ''bbvw'') = Inr (Some 10, l') \<and>
         length_list l' = 1 \<and> SymTable_contains_list (Some l') (Some ''bbvw'') = Inr 0)"
proof -
  note th = SymTable_remove_bound [of False table2 "''bbvw''" list2]
  from th table2_facts(1) table2_lookup(1) obtain v t' where
    h: "SymTable_remove False (Some table2) (Some ''bbvw'') = Inr (v, t')"
       "SymTable_get False (Some table2) (Some ''bbvw'') = Inr v"
       "length_tbl t' = length_tbl table2 - 1"
       "SymTable_contains False (Some t') (Some ''bbvw'') = Inr 0"
    by blast
  have hv: "v = Some 10" using h(2) table2_lookup(2) by simp
  have 1: "\<exists>t'. SymTable_remove False (Some table2) (Some ''bbvw'') = Inr (Some 10, t') \<and>
         length_tbl t' = 1 \<and> SymTable_contains False (Some t') (Some ''bbvw'') = Inr 0"
    using h(1) h(3) h(4) hv table2_lookup(3) by (intro exI [of _ t']) simp
  from th list2_facts obtain w l' where
    g: "SymTable_remove_list (Some list2) (Some ''bbvw'') = Inr (w, l')"
       "SymTable_get_list (Some list2) (Some ''bbvw'') = Inr w"
       "length_list l' = length_list list2 - 1"
       "SymTable_contains_list (Some l') (Some ''bbvw'') = Inr 0"
    by blast
  have gw: "w = Some 10" using g(2) by (simp add: SymTable_get_list_def list2_def)
  have 2: "\<exists>l'. SymTable_remove_list (Some list2) (Some ''bbvw'') = Inr (Some 10, l') \<and>
         length_list l' = 1 \<and> SymTable_contains_list (Some l') (Some ''bbvw'') = Inr 0"
    using g(1) g(3) g(4) gw by (intro exI [of _ l']) (simp add: list2_def)
  show ?thesis using table2_facts(1) table2_lookup(1) 1 list2_facts 2 by blast
qed

section \<open>Insertion at concrete tables\<close>

lemma next_after_509:
  "i + 1 < length primeBuckCounts \<Longrightarrow> primeBuckCounts ! i = 509 \<Longrightarrow>
     primeBuckCounts ! (i + 1) = 1021"
  by (auto simp: primeBuckCounts_def nth_Cons split: nat.splits)

lemma table510_lookup:
  "SymTable_contains False (Some table510) (Some ''kebb'') = Inr 1"
  "SymTable_get False (Some table510) (Some ''kebb'') = Inr (Some 20)"
proof -
  have "\<lparr>key = ''kebb'', val = Some 20\<rparr> \<in># mset (bindings table510)"
    unfolding table510_facts(6) by (simp add: table2_facts)
  then have m: "\<lparr>key = ''kebb'', val = Some 20\<rparr> \<in> set (bindings table510)"
    by simp
  then have "''kebb'' \<in> key ` set (bindings table510)" by force
  then show "SymTable_contains False (Some table510) (Some ''kebb'') = Inr 1"
    by (simp add: SymTable_contains_bindings [OF table510_facts(1)])
  have d: "distinct (map key (bindings table510))"
    using table510_facts(1) by (simp add: SymTable_inv_def)
  have "map_of (map entry (bindings table510)) ''kebb'' = Some (Some 20)"
    using m by (simp add: map_of_entry_Some [OF d]) force
  then show "SymTable_get False (Some table510) (Some ''kebb'') = Inr (Some 20)"
    by (simp add: SymTable_get_bindings [OF table510_facts(1)])
qed

lemma table510_over:
  "numBuckets table510 < length_tbl table510" "numBuckets table510 < 65521"
  by (simp_all add: table510_facts)

text \<open>\<open>table510\<close> holds 510 bindings in 509 buckets. The next insertion expands it to
  1021 buckets, and the key \<open>kebb\<close> keeps its value 20.\<close>

theorem SymTable_put_growth_transparent_witness:
  "SymTable_inv False table510 \<and>
   numBuckets table510 < length_tbl table510 \<and>
   numBuckets table510 < 65521 \<and>
   (\<exists>t1 r t'.
      SymTable_expand False True table510 = Inr t1 \<and> numBuckets t1 = 1021 \<and>
      length_tbl t1 = 510 \<and>
      SymTable_get False (Some t1) (Some ''kebb'') = Inr (Some 20) \<and>
      SymTable_put False True True True (Some table510) (Some (replicate 508 CHR ''a''))
        (Some 508) = Inr (r, t') \<and>
      numBuckets t' = 1021 \<and>
      SymTable_get False (Some t') (Some ''kebb'') = Inr (Some 20))"
proof -
  from SymTable_put_growth_transparent
    [OF table510_facts(1) table510_over, of True True "replicate 508 CHR ''a''" "Some 508"]
  obtain i t1 r t' where
    h: "i + 1 < length primeBuckCounts" "primeBuckCounts ! i = numBuckets table510"
       "SymTable_expand False True table510 = Inr t1"
       "numBuckets t1 = primeBuckCounts ! (i + 1)"
       "length_tbl t1 = length_tbl table510"
       "\<forall>k'. SymTable_get False (Some t1) (Some k') = SymTable_get False (Some table510) (Some k')"
       "SymTable_put False True True True (Some table510) (Some (replicate 508 CHR ''a''))
          (Some 508) = Inr (r, t')"
       "numBuckets t' = primeBuckCounts ! (i + 1)"
       "\<forall>k'. SymTable_contains False (Some table510) (Some k') = Inr 1 \<longrightarrow>
              SymTable_get False (Some t') (Some k') = SymTable_get False (Some table510) (Some k')"
    by blast
  have n: "primeBuckCounts ! (i + 1) = 1021"
    using next_after_509 [OF h(1)] h(2) by (simp add: table510_facts)
  have "SymTable_expand False True table510 = Inr t1 \<and> numBuckets t1 = 1021 \<and>
      length_tbl t1 = 510 \<and>
      SymTable_get False (Some t1) (Some ''kebb'') = Inr (Some 20) \<and>
      SymTable_put False True True True (Some table510) (Some (replicate 508 CHR ''a''))
        (Some 508) = Inr (r, t') \<and>
      numBuckets t' = 1021 \<and>
      SymTable_get False (Some t') (Some ''kebb'') = Inr (Some 20)"
    using h(3) h(4) h(5) h(6) h(7) h(8) h(9) n table510_lookup
    by (simp add: table510_facts)
  then show ?thesis using table510_facts(1) table510_over by blast
qed

text \<open>\<open>bbvw\<close> is bound in \<open>table2\<close> and in \<open>list2\<close>: inserting it again with the
  value 99 returns 0 and the same table. \<open>kebb\<close> is bound in \<open>table510\<close>, where a
  growth is due: inserting it again returns 0 and leaves the table expanded to 1021
  buckets, with 510 bindings and \<open>kebb\<close> still bound to 20.\<close>

lemma SymTable_put_duplicate_examples:
  "SymTable_inv False table2 \<and>
   SymTable_contains False (Some table2) (Some ''bbvw'') = Inr 1 \<and>
   SymTable_put False True True True (Some table2) (Some ''bbvw'') (Some 99) = Inr (0, table2) \<and>
   SymTable_contains_list (Some list2) (Some ''bbvw'') = Inr 1 \<and>
   SymTable_put_list True True (Some list2) (Some ''bbvw'') (Some 99) = Inr (0, list2) \<and>
   SymTable_inv False table510 \<and>
   SymTable_contains False (Some table510) (Some ''kebb'') = Inr 1 \<and>
   (\<exists>t'. SymTable_put False True True True (Some table510) (Some ''kebb'') (Some 99) =
           Inr (0, t') \<and>
         SymTable_expand False True table510 = Inr t' \<and>
         numBuckets t' = 1021 \<and> length_tbl t' = 510 \<and>
         SymTable_get False (Some t') (Some ''kebb'') = Inr (Some 20))"
proof -
  note th = SymTable_put_duplicate
    [of False table2 "''bbvw''" True True True "Some 99" list2]
  from th table2_facts(1) table2_lookup(1) obtain t' where
    h: "SymTable_put False True True True (Some table2) (Some ''bbvw'') (Some 99) = Inr (0, t')"
       "\<not> (numBuckets table2 < length_tbl table2 \<and> numBuckets table2 < 65521 \<and> True) \<longrightarrow>
          t' = table2"
    by blast
  have "t' = table2" using h(2) by (simp add: table2_facts table2_lookup)
  then have 1: "SymTable_put False True True True (Some table2) (Some ''bbvw'') (Some 99) =
                Inr (0, table2)"
    using h(1) by simp
  have 2: "SymTable_put_list True True (Some list2) (Some ''bbvw'') (Some 99) = Inr (0, list2)"
    using th list2_facts(2) by blast
  note th2 = SymTable_put_duplicate
    [of False table510 "''kebb''" True True True "Some 99" list2]
  from th2 table510_facts(1) table510_lookup(1) table510_over obtain t2 i where
    g: "SymTable_put False True True True (Some table510) (Some ''kebb'') (Some 99) = Inr (0, t2)"
       "length_tbl t2 = length_tbl table510"
       "\<forall>k'. SymTable_get False (Some t2) (Some k') = SymTable_get False (Some table510) (Some k')"
       "SymTable_expand False True table510 = Inr t2"
       "i + 1 < length primeBuckCounts" "primeBuckCounts ! i = numBuckets table510"
       "numBuckets t2 = primeBuckCounts ! (i + 1)"
    by blast
  have n: "numBuckets t2 = 1021"
    using next_after_509 [OF g(5)] g(6) g(7) by (simp add: table510_facts)
  have 3: "\<exists>t'. SymTable_put False True True True (Some table510) (Some ''kebb'') (Some 99) =
           Inr (0, t') \<and>
         SymTable_expand False True table510 = Inr t' \<and>
         numBuckets t' = 1021 \<and> length_tbl t' = 510 \<and>
         SymTable_get False (Some t') (Some ''kebb'') = Inr (Some 20)"
    using g(1) g(4) n g(2) g(3) table510_lookup(2)
    by (intro exI [of _ t2]) (simp add: table510_facts)
  show ?thesis
    using table2_facts(1) table2_lookup(1) 1 list2_facts(2) 2 table510_facts(1)
      table510_lookup(1) 3
    by (intro conjI)
qed

text \<open>With 510 bindings in 509 buckets and every allocation successful, the insertion
  leaves 1021 buckets.\<close>

theorem SymTable_put_growth_policy_witness:
  "SymTable_inv False table510 \<and>
   (\<exists>r t'. SymTable_put False True True True (Some table510) (Some (replicate 508 CHR ''a''))
             (Some 508) = Inr (r, t') \<and>
           numBuckets t' = 1021)"
proof -
  from SymTable_put_growth_policy
    [OF table510_facts(1), of True True True "replicate 508 CHR ''a''" "Some 508"]
    table510_over
  obtain r t' i where
    h: "SymTable_put False True True True (Some table510) (Some (replicate 508 CHR ''a''))
             (Some 508) = Inr (r, t')"
       "i + 1 < length primeBuckCounts" "primeBuckCounts ! i = numBuckets table510"
       "numBuckets t' = primeBuckCounts ! (i + 1)"
    by auto
  have "numBuckets t' = 1021"
    using next_after_509 [OF h(2)] h(3) h(4) by (simp add: table510_facts)
  then show ?thesis using h(1) table510_facts(1) by blast
qed

text \<open>The claim as stated fails where the \<open>calloc\<close> of the expansion fails: the table
  holds 510 bindings in 509 buckets, the expansion is called, and the insertion leaves
  509 buckets.\<close>

theorem SymTable_put_growth_policy_counterexample:
  "numBuckets table510 < length_tbl table510 \<and>
   numBuckets table510 < 65521 \<and>
   numBuckets table510 = 509 \<and>
   (case SymTable_put False False True True (Some table510) (Some (replicate 508 CHR ''a''))
           (Some 508) of
      Inl e \<Rightarrow> False
    | Inr (r, t') \<Rightarrow> numBuckets t' = 509)"
proof -
  from SymTable_put_ok [OF table510_facts(1), of False True True "replicate 508 CHR ''a''" "Some 508"]
  obtain t1 r t' where
    h: "put_grow False False table510 = Inr t1"
       "SymTable_put False False True True (Some table510) (Some (replicate 508 CHR ''a''))
           (Some 508) = Inr (r, t')"
       "numBuckets t' = numBuckets t1"
    by blast
  have "t1 = table510" using put_grow_ok [OF table510_facts(1), of False] h(1) by simp
  then have "numBuckets t' = 509" using h(3) by (simp add: table510_facts)
  then show ?thesis using h(2) table510_over by (simp add: table510_facts)
qed

section \<open>Reachable tables\<close>

lemma SymTable_replace_inv:
  "SymTable_inv sg t \<Longrightarrow>
     SymTable_replace sg (Some t) (Some k) v =
       (case replace_loop (buckets t ! bucket_of sg t k) k v of
          None \<Rightarrow> Inr (None, t)
        | Some (old, bs) \<Rightarrow> Inr (old, t\<lparr>buckets := (buckets t)[bucket_of sg t k := bs]\<rparr>))"
  by (simp add: SymTable_replace_def inv_hash inv_bucket_of_less' bucket_of_def
      split: option.split)

lemma replace_chain_inv:
  assumes inv: "SymTable_inv sg t"
    and ch: "buckets t ! bucket_of sg t k = xs @ b # ys" "key b = k"
  shows "SymTable_inv sg (t\<lparr>buckets := (buckets t)[bucket_of sg t k := xs @ b\<lparr>val := v\<rparr> # ys]\<rparr>)"
proof -
  let ?i = "bucket_of sg t k"
  let ?c = "xs @ b\<lparr>val := v\<rparr> # ys"
  have i: "?i < length (buckets t)" by (rule inv_bucket_of_less [OF inv])
  have "length (concat ((buckets t)[?i := ?c])) = length (bindings t)"
    using length_concat_update [OF i, of ?c] ch(1) by (simp add: bindings_def)
  then have L: "length_tbl t = of_nat (length (concat ((buckets t)[?i := ?c])))"
    using inv by (simp add: SymTable_inv_def)
  have "SymTable_inv sg (t\<lparr>buckets := (buckets t)[?i := ?c], length_tbl := length_tbl t\<rparr>)"
  proof (rule inv_update [OF inv _ _ L])
    show "key ` set ?c \<subseteq> insert k (key ` set (buckets t ! ?i))"
      by (auto simp: ch)
    show "distinct (map key ?c)"
      using inv_distinct_bucket [OF inv i] by (simp add: ch)
  qed
  then show ?thesis by simp
qed

lemma replace_preserves_inv:
  assumes inv: "SymTable_inv sg t"
    and rep: "SymTable_replace sg (Some t) (Some k) v = Inr (old, t')"
  shows "SymTable_inv sg t'"
proof (cases "replace_loop (buckets t ! bucket_of sg t k) k v")
  case None
  then show ?thesis using rep inv by (simp add: SymTable_replace_inv [OF inv])
next
  case (Some p)
  then obtain o' bs where r: "replace_loop (buckets t ! bucket_of sg t k) k v = Some (o', bs)"
    by (cases p) auto
  from replace_loop_Some [OF r] obtain xs b ys where
    d: "buckets t ! bucket_of sg t k = xs @ b # ys" "bs = xs @ b\<lparr>val := v\<rparr> # ys" "key b = k"
    by blast
  have "t' = t\<lparr>buckets := (buckets t)[bucket_of sg t k := xs @ b\<lparr>val := v\<rparr> # ys]\<rparr>"
    using rep r d(2) by (simp add: SymTable_replace_inv [OF inv])
  then show ?thesis using replace_chain_inv [OF inv d(1) d(3)] by simp
qed

lemma remove_preserves_inv:
  assumes inv: "SymTable_inv sg t"
    and rem: "SymTable_remove sg (Some t) (Some k) = Inr (old, t')"
  shows "SymTable_inv sg t'"
proof (cases "SymTable_contains sg (Some t) (Some k) = Inr 1")
  case True
  from SymTable_remove_hash_bound [OF inv True] rem show ?thesis by auto
next
  case False
  then have "\<not> contains_loop (buckets t ! bucket_of sg t k) k"
    by (simp add: SymTable_contains_inv [OF inv] split: if_splits)
  then have "remove_loop (buckets t ! bucket_of sg t k) k = None"
    by (simp add: remove_loop_None contains_loop_iff)
  then show ?thesis using rem inv by (simp add: SymTable_remove_inv [OF inv])
qed

lemma put_preserves_inv:
  assumes inv: "SymTable_inv sg t"
    and put: "SymTable_put sg c m1 m2 (Some t) (Some k) v = Inr (r, t')"
  shows "SymTable_inv sg t'"
  using SymTable_put_ok [OF inv, of c m1 m2 k v] put by auto

lemma reachable_inv: "reachable sg t \<Longrightarrow> SymTable_inv sg t"
proof (induction rule: reachable.induct)
  case (reach_new malloc_ok calloc_ok t)
  then show ?case by (rule SymTable_new_inv(1))
next
  case (reach_put t calloc_ok malloc_binding_ok malloc_key_ok k v r t')
  then show ?case using put_preserves_inv by blast
next
  case (reach_replace t k v old t')
  then show ?case using replace_preserves_inv by blast
next
  case (reach_remove t k old t')
  then show ?case using remove_preserves_inv by blast
qed

text \<open>
  Claim C9. In every reachable table the bucket count is an element of
  \<open>primeBuckCounts\<close>. Hence the search of \<open>SymTable_expand\<close> stops at an index inside
  the array; \<open>SymTable_put\<close> calls \<open>SymTable_expand\<close> only below 65521, where the index
  found is not the last, so the read of the next element is inside the array too:
  \<open>SymTable_expand\<close> and \<open>SymTable_put\<close> return, with no read outside an array.
\<close>

theorem reachable_expand_in_bounds:
  assumes "reachable sg t"
  shows "numBuckets t \<in> set primeBuckCounts \<and>
         (\<exists>i. expand_search (numBuckets t) 0 = Inr i \<and> i < length primeBuckCounts \<and>
              primeBuckCounts ! i = numBuckets t \<and>
              (numBuckets t < 65521 \<longrightarrow> i + 1 < length primeBuckCounts)) \<and>
         put_grow sg c t =
           (if numBuckets t < length_tbl t \<and> numBuckets t < 65521
            then SymTable_expand sg c t else Inr t) \<and>
         (numBuckets t < 65521 \<longrightarrow> (\<exists>t1. SymTable_expand sg c t = Inr t1)) \<and>
         (\<exists>r t'. SymTable_put sg c m1 m2 (Some t) (Some k) v = Inr (r, t'))"
proof -
  have inv: "SymTable_inv sg t" by (rule reachable_inv [OF assms])
  have 1: "numBuckets t \<in> set primeBuckCounts" using inv by (simp add: SymTable_inv_def)
  have 2: "\<exists>i. expand_search (numBuckets t) 0 = Inr i \<and> i < length primeBuckCounts \<and>
              primeBuckCounts ! i = numBuckets t \<and>
              (numBuckets t < 65521 \<longrightarrow> i + 1 < length primeBuckCounts)"
    by (rule expand_search_found [OF 1])
  have 3: "put_grow sg c t =
           (if numBuckets t < length_tbl t \<and> numBuckets t < 65521
            then SymTable_expand sg c t else Inr t)"
    by (simp add: put_grow_def last_primeBuckCounts)
  have 4: "numBuckets t < 65521 \<longrightarrow> (\<exists>t1. SymTable_expand sg c t = Inr t1)"
    using SymTable_expand_ok [OF inv, of c] by blast
  have 5: "\<exists>r t'. SymTable_put sg c m1 m2 (Some t) (Some k) v = Inr (r, t')"
    using SymTable_put_ok [OF inv, of c m1 m2 k v] by blast
  show ?thesis using 1 2 3 4 5 by blast
qed

lemma table510_reachable: "reachable False table510"
proof -
  have pa: "reachable sg (put_all sg t kvs)" if "reachable sg t"
    for sg kvs and t :: "'a SymTable"
    using that
  proof (induction kvs arbitrary: t)
    case Nil
    then show ?case by simp
  next
    case (Cons kv kvs)
    obtain k v where kv: "kv = (k, v)" by (cases kv)
    from SymTable_put_ok [OF reachable_inv [OF Cons.prems], of True True True k v]
    obtain r t' where p: "SymTable_put sg True True True (Some t) (Some k) v = Inr (r, t')"
      by blast
    have "reachable sg t'" by (rule reach_put [OF Cons.prems p])
    then show ?case using Cons.IH p kv by simp
  qed
  have "reachable False empty_table" by (rule reach_new [OF empty_table_new])
  then have "reachable False table2" unfolding table2_def by (rule pa)
  then show ?thesis unfolding table510_def by (rule pa)
qed

text \<open>\<open>table510\<close> is reachable, with 509 buckets: the search stops at index 0, and the
  expansion reads index 1.\<close>

theorem reachable_expand_in_bounds_witness:
  "reachable False table510 \<and> numBuckets table510 = 509 \<and>
   expand_search (numBuckets table510) 0 = Inr 0 \<and>
   (\<exists>t1. SymTable_expand False True table510 = Inr t1) \<and>
   (\<exists>r t'. SymTable_put False True True True (Some table510) (Some ''x'') None = Inr (r, t'))"
proof -
  note th = reachable_expand_in_bounds [OF table510_reachable, of True True True "''x''" None]
  have e: "expand_search (numBuckets table510) 0 = Inr 0"
    by (simp add: table510_facts expand_search.simps primeBuckCounts_def)
  have "\<exists>t1. SymTable_expand False True table510 = Inr t1"
    using th table510_over(2) by blast
  moreover have "\<exists>r t'. SymTable_put False True True True (Some table510) (Some ''x'') None =
                        Inr (r, t')"
    using th by blast
  ultimately show ?thesis using table510_reachable table510_facts(2) e by blast
qed

section \<open>Traversal\<close>

lemma map_chain_foldl:
  "map_chain f e bs s = foldl (\<lambda>s b. f (key b) (val b) e s) s bs"
  by (induction bs arbitrary: s) auto

lemma map_chain_append:
  "map_chain f e (xs @ ys) s = map_chain f e ys (map_chain f e xs s)"
  by (simp add: map_chain_foldl)

lemma map_chain_record:
  "map_chain record_call e bs s = s @ map (\<lambda>b. (key b, val b, e)) bs"
  by (induction bs arbitrary: s) (auto simp: record_call_def)

lemma map_buckets_ok:
  assumes "length (buckets t) = unat (numBuckets t)" "i \<le> length (buckets t)"
  shows "map_buckets t f e i s = Inr (map_chain f e (concat (drop i (buckets t))) s)"
  using assms(2)
proof (induction "length (buckets t) - i" arbitrary: i s)
  case 0
  then have "i = length (buckets t)" by simp
  then show ?case using assms(1) by (simp add: map_buckets.simps)
next
  case (Suc d)
  have i: "i < length (buckets t)" using Suc.hyps(2) by simp
  have dr: "drop i (buckets t) = buckets t ! i # drop (Suc i) (buckets t)"
    using i by (simp add: Cons_nth_drop_Suc)
  have d: "d = length (buckets t) - Suc i" using Suc.hyps(2) by simp
  have le: "Suc i \<le> length (buckets t)" using i by simp
  show ?case
    using Suc.hyps(1) [OF d le] i assms(1)
    by (subst map_buckets.simps) (simp add: dr map_chain_append)
qed

lemma SymTable_map_inv:
  "SymTable_inv sg t \<Longrightarrow>
     SymTable_map (Some t) (Some f) e s = Inr (map_chain f e (concat (buckets t)) s)"
  using map_buckets_ok [of t 0 f e s] by (simp add: SymTable_map_def SymTable_inv_def)

text \<open>
  Claim C10. \<open>SymTable_map\<close> with a null function pointer fails its assertion in both
  implementations, whatever the other arguments are; so does a null table. With a live
  table (one whose invariant holds) and a function, both implementations return.
\<close>

theorem SymTable_map_NULL_function:
  "SymTable_map oSymTable None pvExtra s = Inl AssertionFailure \<and>
   SymTable_map_list oList None pvExtra s = Inl AssertionFailure \<and>
   SymTable_map None pfApply pvExtra s = Inl AssertionFailure \<and>
   SymTable_map_list None pfApply pvExtra s = Inl AssertionFailure \<and>
   (SymTable_inv sg t \<longrightarrow> (\<exists>s'. SymTable_map (Some t) (Some f) pvExtra s = Inr s')) \<and>
   (\<exists>s'. SymTable_map_list (Some l) (Some f) pvExtra s = Inr s')"
proof -
  have 1: "SymTable_map oSymTable None pvExtra s = Inl AssertionFailure"
    "SymTable_map None pfApply pvExtra s = Inl AssertionFailure"
    by (simp_all add: SymTable_map_def split: option.splits)
  have 2: "SymTable_map_list oList None pvExtra s = Inl AssertionFailure"
    "SymTable_map_list None pfApply pvExtra s = Inl AssertionFailure"
    by (simp_all add: SymTable_map_list_def split: option.splits)
  have 3: "SymTable_inv sg t \<longrightarrow> (\<exists>s'. SymTable_map (Some t) (Some f) pvExtra s = Inr s')"
    by (simp add: SymTable_map_inv)
  have 4: "\<exists>s'. SymTable_map_list (Some l) (Some f) pvExtra s = Inr s'"
    by (simp add: SymTable_map_list_def)
  show ?thesis using 1 2 3 4 by (intro conjI)
qed

text \<open>On \<open>table2\<close> and \<open>list2\<close>: a null function aborts, a function is called.\<close>

theorem SymTable_map_NULL_function_witness:
  "SymTable_map (Some table2) None () ([] :: (string \<times> nat option \<times> unit) list) =
     Inl AssertionFailure \<and>
   SymTable_map_list (Some list2) None () ([] :: (string \<times> nat option \<times> unit) list) =
     Inl AssertionFailure \<and>
   SymTable_inv False table2 \<and>
   (\<exists>s'. SymTable_map (Some table2) (Some record_call) () [] = Inr s') \<and>
   (\<exists>s'. SymTable_map_list (Some list2) (Some record_call) () [] = Inr s')"
  using SymTable_map_NULL_function
    [of "Some table2" "()" "[]" "Some list2" "Some record_call" False table2 record_call list2]
    table2_facts(1)
  by blast

lemma rehash_filter:
  assumes ch: "\<forall>j < length nb. nb ! j = rev (filter (\<lambda>b. f b = j) xs)"
    and P: "\<forall>b \<in> set xs. P b \<longrightarrow> f b = i"
    and i: "i < length nb"
  shows "filter P (concat nb) = rev (filter P xs)"
proof -
  have other: "\<not> P b" if "j < length nb" "j \<noteq> i" "b \<in> set (nb ! j)" for j b
  proof -
    have "b \<in> set xs \<and> f b = j" using ch that(1) that(3) by simp
    then show ?thesis using P that(2) by blast
  qed
  have 1: "filter P (concat (take i nb)) = []"
  proof -
    have "\<not> P b" if b: "b \<in> set (concat (take i nb))" for b
    proof -
      obtain j where "j < length nb" "j \<noteq> i" "b \<in> set (nb ! j)"
        using in_concat_take [OF b] by blast
      then show ?thesis by (rule other)
    qed
    then show ?thesis by (simp only: filter_empty_conv) blast
  qed
  have 2: "filter P (concat (drop (Suc i) nb)) = []"
  proof -
    have "\<not> P b" if b: "b \<in> set (concat (drop (Suc i) nb))" for b
    proof -
      obtain j where "j < length nb" "j \<noteq> i" "b \<in> set (nb ! j)"
        using in_concat_drop [OF b] by blast
      then show ?thesis by (rule other)
    qed
    then show ?thesis by (simp only: filter_empty_conv) blast
  qed
  have "filter P (filter (\<lambda>b. f b = i) xs) = filter (\<lambda>b. f b = i \<and> P b) xs"
    by simp
  also have "\<dots> = filter P xs"
    using P by (intro filter_cong) auto
  finally have "filter P (filter (\<lambda>b. f b = i) xs) = filter P xs" .
  then have 3: "filter P (nb ! i) = rev (filter P xs)"
    using ch i by (simp add: rev_filter [symmetric])
  show ?thesis
    by (subst concat_nth_split [OF i]) (simp only: filter_append 1 2 3 append_Nil append_Nil2)
qed

lemma hash_1021:
  "unat (hash_loop False ''bbvw'' (0 :: size_t) mod 1021) = 126"
  "unat (hash_loop False ''kebb'' (0 :: size_t) mod 1021) = 126"
  by (simp_all add: char_to_size_t_def)

lemma replicate_a_other:
  "replicate n CHR ''a'' \<noteq> ''bbvw''" "replicate n CHR ''a'' \<noteq> ''kebb''"
proof -
  have "CHR ''b'' \<notin> set (replicate n CHR ''a'')" by simp
  moreover have "CHR ''b'' \<in> set ''bbvw''" "CHR ''b'' \<in> set ''kebb''" by simp_all
  ultimately show "replicate n CHR ''a'' \<noteq> ''bbvw''" "replicate n CHR ''a'' \<noteq> ''kebb''"
    by metis+
qed

lemma a_508_fresh: "replicate 508 CHR ''a'' \<notin> key ` set (bindings table510)"
proof -
  have "set (bindings table510) =
        set (bindings table2) \<union> set (map (\<lambda>(k, v). \<lparr>key = k, val = v\<rparr>) (a_keys 508))"
    using table510_facts(6) by (metis set_mset_mset set_mset_union)
  moreover have "replicate 508 CHR ''a'' \<notin> key ` set (bindings table2)"
    by (simp add: table2_facts replicate_a_other)
  moreover have "replicate 508 CHR ''a'' \<notin>
                 key ` set (map (\<lambda>(k, v). \<lparr>key = k, val = v\<rparr>) (a_keys 508))"
  proof
    assume "replicate 508 CHR ''a'' \<in>
            key ` set (map (\<lambda>(k, v). \<lparr>key = k, val = v\<rparr>) (a_keys 508))"
    then obtain i where "i < 508" "replicate 508 CHR ''a'' = replicate i CHR ''a''"
      by (auto simp: a_keys_def)
    then have "508 = i" by (metis length_replicate)
    then show False using \<open>i < 508\<close> by simp
  qed
  ultimately show ?thesis by auto
qed

lemma table511_facts:
  "SymTable_inv False table511" "numBuckets table511 = 1021"
  "filter (keys_in {''bbvw'', ''kebb''}) (bindings table511) =
     [\<lparr>key = ''bbvw'', val = Some 10\<rparr>, \<lparr>key = ''kebb'', val = Some 20\<rparr>]"
proof -
  let ?k = "replicate 508 CHR ''a''"
  let ?S = "{''bbvw'', ''kebb''}"
  note inv = table510_facts(1)
  from SymTable_put_ok [OF inv, of True True True ?k "Some 508"] a_508_fresh
  obtain t1 t' where
    p: "put_grow False True table510 = Inr t1" "SymTable_inv False t1"
       "SymTable_put False True True True (Some table510) (Some ?k) (Some 508) = Inr (1, t')"
       "SymTable_inv False t'" "numBuckets t' = numBuckets t1"
       "t' = t1\<lparr>buckets := (buckets t1)
                [bucket_of False t1 ?k := \<lparr>key = ?k, val = Some 508\<rparr> # buckets t1 ! bucket_of False t1 ?k],
              length_tbl := length_tbl t1 + 1\<rparr>"
       "mset (bindings t1) = mset (bindings table510)"
    by auto
  from put_grow_ok [OF inv, of True] p(1) table510_over obtain i where
    g: "i + 1 < length primeBuckCounts" "primeBuckCounts ! i = numBuckets table510"
       "numBuckets t1 = primeBuckCounts ! (i + 1)"
       "length (buckets t1) = unat (numBuckets t1)"
       "\<forall>j < length (buckets t1). buckets t1 ! j =
          rev (filter (\<lambda>b. unat (hash_loop False (key b) 0 mod numBuckets t1) = j)
                 (bindings table510))"
    by auto
  have n1: "numBuckets t1 = 1021"
    using next_after_509 [OF g(1)] g(2) g(3) by (simp add: table510_facts)
  have len: "length (buckets t1) = 1021" using g(4) by (simp add: n1)
  have P: "\<forall>b \<in> set (bindings table510). keys_in ?S b \<longrightarrow>
             unat (hash_loop False (key b) 0 mod numBuckets t1) = 126"
  proof (intro ballI impI)
    fix b :: "nat Binding"
    assume "keys_in ?S b"
    then have "key b = ''bbvw'' \<or> key b = ''kebb''" by (simp add: keys_in_def)
    then show "unat (hash_loop False (key b) 0 mod numBuckets t1) = 126"
      unfolding n1 using hash_1021 by metis
  qed
  have f1: "filter (keys_in ?S) (bindings t1) = rev (filter (keys_in ?S) (bindings table510))"
    unfolding bindings_def [of t1]
    by (rule rehash_filter [OF g(5) P]) (simp add: len)
  have fresh1: "?k \<notin> key ` set (bindings t1)"
    using a_508_fresh mset_eq_setD [OF p(7)] by simp
  let ?i = "bucket_of False t1 ?k"
  have i: "?i < length (buckets t1)" by (rule inv_bucket_of_less [OF p(2)])
  have b1: "bindings t1 = concat (take ?i (buckets t1)) @ buckets t1 ! ?i @
              concat (drop (Suc ?i) (buckets t1))"
    using concat_nth_split [OF i] by (simp add: bindings_def)
  have b': "bindings t' = concat (take ?i (buckets t1)) @
              \<lparr>key = ?k, val = Some 508\<rparr> # buckets t1 ! ?i @
              concat (drop (Suc ?i) (buckets t1))"
    unfolding p(6) by (rule put_insert_inv(2) [OF p(2) fresh1])
  have nS: "\<not> keys_in ?S \<lparr>key = ?k, val = Some 508\<rparr>"
    by (simp add: keys_in_def replicate_a_other)
  have f': "filter (keys_in ?S) (bindings t') = filter (keys_in ?S) (bindings t1)"
    by (subst b', subst b1) (simp add: nS)
  have t: "table511 = t'" by (simp add: table511_def p(3))
  show "SymTable_inv False table511" "numBuckets table511 = 1021"
    using p(4) p(5) n1 by (simp_all add: t)
  show "filter (keys_in ?S) (bindings table511) =
     [\<lparr>key = ''bbvw'', val = Some 10\<rparr>, \<lparr>key = ''kebb'', val = Some 20\<rparr>]"
    by (simp add: t f' f1 table510_facts(5))
qed

lemma map_calls_inv:
  "SymTable_inv sg t \<Longrightarrow> map_calls t e = map (\<lambda>b. (key b, val b, e)) (bindings t)"
  by (simp add: map_calls_def SymTable_map_inv map_chain_record bindings_def)

lemma SymTable_get_binding:
  assumes inv: "SymTable_inv sg t" and b: "b \<in> set (bindings t)"
  shows "SymTable_get sg (Some t) (Some (key b)) = Inr (val b)"
proof -
  have d: "distinct (map key (bindings t))" using inv by (simp add: SymTable_inv_def)
  have "map_of (map entry (bindings t)) (key b) = Some (val b)"
    using b by (simp add: map_of_entry_Some [OF d]) blast
  then show ?thesis by (simp add: SymTable_get_bindings [OF inv])
qed

text \<open>
  Claim C6, amended. For a table whose invariant holds, \<open>SymTable_map\<close> returns, and
  it applies the callback to the bindings of bucket 0 in chain order, then to those of
  bucket 1, and so on: once per binding, with the binding's key, its value (the value
  \<open>SymTable_get\<close> returns for the key) and \<open>pvExtra\<close>. The number of calls is the number
  of bindings, which is what \<open>SymTable_getLength\<close> returns (as a \<open>size_t\<close>); no key is
  passed twice and every bound key is passed. The table is not an output of the
  traversal: the function writes to no field of the table or of a binding.
  The chain order is: a successful insertion links the new binding at the head of its
  chain, and an expansion builds every new chain from the old bindings taken in traversal
  order, each pushed on the head, which reverses the order of bindings that were in one
  chain and stay in one chain.
\<close>

theorem SymTable_map_traversal:
  assumes inv: "SymTable_inv sg t"
  shows "SymTable_map (Some t) (Some f) e s =
           Inr (foldl (\<lambda>s b. f (key b) (val b) e s) s (concat (buckets t))) \<and>
         map_calls t e = map (\<lambda>b. (key b, val b, e)) (concat (buckets t)) \<and>
         SymTable_getLength (Some t) = Inr (of_nat (length (map_calls t e))) \<and>
         distinct (map fst (map_calls t e)) \<and>
         (\<forall>c \<in> set (map_calls t e).
            SymTable_get sg (Some t) (Some (fst c)) = Inr (fst (snd c)) \<and> snd (snd c) = e) \<and>
         (\<forall>k. SymTable_contains sg (Some t) (Some k) = Inr 1 \<longrightarrow> k \<in> fst ` set (map_calls t e)) \<and>
         (\<forall>c m1 m2 k v t'.
            SymTable_put sg c m1 m2 (Some t) (Some k) v = Inr (1, t') \<longrightarrow>
            (\<exists>t1. put_grow sg c t = Inr t1 \<and>
                  buckets t' = (buckets t1)
                    [bucket_of sg t1 k := \<lparr>key = k, val = v\<rparr> # buckets t1 ! bucket_of sg t1 k])) \<and>
         (numBuckets t < length_tbl t \<and> numBuckets t < 65521 \<longrightarrow>
            (\<exists>t1. SymTable_expand sg True t = Inr t1 \<and>
                  (\<forall>j < length (buckets t1). buckets t1 ! j =
                     rev (filter (\<lambda>b. bucket_of sg t1 (key b) = j) (concat (buckets t))))))"
proof -
  have 1: "SymTable_map (Some t) (Some f) e s =
           Inr (foldl (\<lambda>s b. f (key b) (val b) e s) s (concat (buckets t)))"
    by (simp add: SymTable_map_inv [OF inv] map_chain_foldl)
  have 2: "map_calls t e = map (\<lambda>b. (key b, val b, e)) (concat (buckets t))"
    by (simp add: map_calls_inv [OF inv] bindings_def)
  have 3: "SymTable_getLength (Some t) = Inr (of_nat (length (map_calls t e)))"
    using inv by (simp add: SymTable_getLength_def map_calls_inv [OF inv] SymTable_inv_def)
  have 4: "distinct (map fst (map_calls t e))"
    using inv by (simp add: map_calls_inv [OF inv] SymTable_inv_def comp_def)
  have 5: "\<forall>c \<in> set (map_calls t e).
            SymTable_get sg (Some t) (Some (fst c)) = Inr (fst (snd c)) \<and> snd (snd c) = e"
    using SymTable_get_binding [OF inv] by (auto simp: map_calls_inv [OF inv])
  have 6: "\<forall>k. SymTable_contains sg (Some t) (Some k) = Inr 1 \<longrightarrow> k \<in> fst ` set (map_calls t e)"
    by (auto simp: SymTable_contains_bindings [OF inv] map_calls_inv [OF inv] image_image
        split: if_splits)
  have 7: "\<exists>t1. put_grow sg c t = Inr t1 \<and>
                  buckets t' = (buckets t1)
                    [bucket_of sg t1 k := \<lparr>key = k, val = v\<rparr> # buckets t1 ! bucket_of sg t1 k]"
    if "SymTable_put sg c m1 m2 (Some t) (Some k) v = Inr (1, t')" for c m1 m2 k v t'
    using SymTable_put_ok [OF inv, of c m1 m2 k v] that by (auto split: if_splits)
  have 8: "\<exists>t1. SymTable_expand sg True t = Inr t1 \<and>
                  (\<forall>j < length (buckets t1). buckets t1 ! j =
                     rev (filter (\<lambda>b. bucket_of sg t1 (key b) = j) (concat (buckets t))))"
    if over: "numBuckets t < length_tbl t \<and> numBuckets t < 65521"
  proof -
    from put_grow_ok [OF inv, of True] over obtain t1 where
      g: "put_grow sg True t = Inr t1"
         "\<forall>j < length (buckets t1). buckets t1 ! j =
            rev (filter (\<lambda>b. unat (hash_loop sg (key b) 0 mod numBuckets t1) = j) (bindings t))"
      by auto
    have "SymTable_expand sg True t = Inr t1"
      using g(1) over by (simp add: put_grow_def last_primeBuckCounts)
    then show ?thesis using g(2) by (auto simp: bucket_of_def bindings_def)
  qed
  show ?thesis using 1 2 3 4 5 6 7 8 by blast
qed

text \<open>In \<open>table2\<close> the two bindings share bucket 320; \<open>kebb\<close>, inserted last, is
  passed first.\<close>

theorem SymTable_map_traversal_witness:
  "SymTable_inv False table2 \<and>
   map_calls table2 () = [(''kebb'', Some 20, ()), (''bbvw'', Some 10, ())] \<and>
   SymTable_getLength (Some table2) = Inr 2 \<and>
   SymTable_map (Some table2) (Some (\<lambda>k v e n. n + length k)) () 0 = Inr 8"
proof -
  note th = SymTable_map_traversal [OF table2_facts(1)]
  have b: "concat (buckets table2) =
           [\<lparr>key = ''kebb'', val = Some 20\<rparr>, \<lparr>key = ''bbvw'', val = Some 10\<rparr>]"
    using table2_facts(3) by (simp add: bindings_def)
  have 1: "map_calls table2 () = [(''kebb'', Some 20, ()), (''bbvw'', Some 10, ())]"
    using th [of "\<lambda>k v e n. n + length k" "()" 0] by (simp add: b)
  have 2: "SymTable_getLength (Some table2) = Inr 2"
    using th [of "\<lambda>k v e n. n + length k" "()" 0] by (simp add: 1)
  have 3: "SymTable_map (Some table2) (Some (\<lambda>k v e n. n + length k)) () 0 = Inr 8"
    using th [of "\<lambda>k v e n. n + length k" "()" 0] by (simp add: b)
  show ?thesis using table2_facts(1) 1 2 3 by (intro conjI)
qed

text \<open>The claim as stated fails after an expansion. \<open>table511\<close> is built by inserting
  \<open>bbvw\<close>, then \<open>kebb\<close>, then 509 other keys; the last insertion expands the table from
  509 to 1021 buckets. The two keys share bucket 320 before and bucket 126 after. Before
  the expansion (\<open>table510\<close>) the traversal passes \<open>kebb\<close> first; after it, \<open>bbvw\<close>,
  the binding inserted first, is passed first.\<close>

theorem SymTable_map_traversal_counterexample:
  "filter (\<lambda>c. fst c \<in> {''bbvw'', ''kebb''}) (map_calls table511 ()) =
     [(''bbvw'', Some 10, ()), (''kebb'', Some 20, ())] \<and>
   bucket_of False table511 ''bbvw'' = 126 \<and>
   bucket_of False table511 ''kebb'' = 126 \<and>
   filter (\<lambda>c. fst c \<in> {''bbvw'', ''kebb''}) (map_calls table510 ()) =
     [(''kebb'', Some 20, ()), (''bbvw'', Some 10, ())] \<and>
   bucket_of False table510 ''bbvw'' = 320 \<and>
   bucket_of False table510 ''kebb'' = 320"
proof -
  have f: "filter (\<lambda>c. fst c \<in> S) (map (\<lambda>b. (key b, val b, ())) bs) =
           map (\<lambda>b. (key b, val b, ())) (filter (keys_in S) bs)"
    for S and bs :: "nat Binding list"
    by (induction bs) (auto simp: keys_in_def)
  have 1: "filter (\<lambda>c. fst c \<in> {''bbvw'', ''kebb''}) (map_calls table511 ()) =
           [(''bbvw'', Some 10, ()), (''kebb'', Some 20, ())]"
    by (simp only: map_calls_inv [OF table511_facts(1)] f table511_facts(3)) simp
  have 2: "filter (\<lambda>c. fst c \<in> {''bbvw'', ''kebb''}) (map_calls table510 ()) =
           [(''kebb'', Some 20, ()), (''bbvw'', Some 10, ())]"
    by (simp only: map_calls_inv [OF table510_facts(1)] f table510_facts(5)) simp
  have 3: "bucket_of False table511 ''bbvw'' = 126" "bucket_of False table511 ''kebb'' = 126"
    unfolding bucket_of_def table511_facts(2) by (rule hash_1021)+
  have 4: "bucket_of False table510 ''bbvw'' = 320" "bucket_of False table510 ''kebb'' = 320"
    by (rule bucket_of_bbvw [OF table510_facts(2)], rule bucket_of_kebb [OF table510_facts(2)])
  show ?thesis using 1 2 3 4 by (intro conjI)
qed

section \<open>The two implementations\<close>

lemma same_bindings_length:
  assumes "same_bindings sg t l"
  shows "length_tbl t = length_list l"
proof -
  have "length (bindings t) = length (firstBinding l)"
    using assms by (metis same_bindings_def size_mset)
  then show ?thesis using assms by (simp add: same_bindings_def SymTable_inv_def list_inv_def)
qed

lemma same_bindings_keys:
  assumes "same_bindings sg t l"
  shows "set (bindings t) = set (firstBinding l)"
  using assms by (metis same_bindings_def mset_eq_setD)

lemma same_bindings_map_of:
  assumes "same_bindings sg t l"
  shows "map_of (map entry (bindings t)) = map_of (map entry (firstBinding l))"
  using assms by (simp add: same_bindings_def SymTable_inv_def map_of_entry_mset)

lemma key_unique:
  assumes "distinct (map key bs)" "b \<in> set bs" "b' \<in> set bs" "key b = key b'"
  shows "b = b'"
  using assms by (meson distinct_map inj_onD)

lemma step_get:
  assumes "same_bindings sg t l"
  shows "SymTable_get sg (Some t) (Some k) = SymTable_get_list (Some l) (Some k)"
  using assms
  by (simp add: SymTable_get_bindings same_bindings_def SymTable_get_list_def get_loop_map_of
      same_bindings_map_of [OF assms])

lemma step_contains:
  assumes "same_bindings sg t l"
  shows "SymTable_contains sg (Some t) (Some k) = SymTable_contains_list (Some l) (Some k)"
  using assms
  by (simp add: SymTable_contains_bindings same_bindings_def SymTable_contains_list_def
      contains_loop_iff same_bindings_keys [OF assms])

lemma step_put:
  assumes R: "same_bindings sg t l"
  shows "\<exists>r t' l'. SymTable_put sg c m1 m2 (Some t) (Some k) v = Inr (r, t') \<and>
           SymTable_put_list m1 m2 (Some l) (Some k) v = Inr (r, l') \<and> same_bindings sg t' l'"
proof -
  have inv: "SymTable_inv sg t" and linv: "list_inv l"
    and ms: "mset (bindings t) = mset (firstBinding l)"
    using R by (simp_all add: same_bindings_def)
  have keys: "key ` set (firstBinding l) = key ` set (bindings t)"
    using same_bindings_keys [OF R] by simp
  from SymTable_put_ok [OF inv, of c m1 m2 k v] obtain t1 r t' where
    p: "SymTable_inv sg t1" "mset (bindings t1) = mset (bindings t)"
       "SymTable_put sg c m1 m2 (Some t) (Some k) v = Inr (r, t')" "SymTable_inv sg t'"
       "if k \<in> key ` set (bindings t) \<or> \<not> m1 \<or> \<not> m2 then r = 0 \<and> t' = t1
        else r = 1 \<and> mset (bindings t') = add_mset \<lparr>key = k, val = v\<rparr> (mset (bindings t))"
    by (auto split: if_splits)
  show ?thesis
  proof (cases "k \<in> key ` set (bindings t) \<or> \<not> m1 \<or> \<not> m2")
    case True
    then have "SymTable_put_list m1 m2 (Some l) (Some k) v = Inr (0, l)"
      by (auto simp: SymTable_put_list_def contains_loop_iff keys)
    moreover have "r = 0" "same_bindings sg t' l"
      using True p linv ms by (simp_all add: same_bindings_def)
    ultimately show ?thesis using p(3) by blast
  next
    case False
    let ?l' = "l\<lparr>firstBinding := \<lparr>key = k, val = v\<rparr> # firstBinding l,
                  length_list := length_list l + 1\<rparr>"
    have "SymTable_put_list m1 m2 (Some l) (Some k) v = Inr (1, ?l')"
      using False by (simp add: SymTable_put_list_def contains_loop_iff keys)
    moreover have "list_inv ?l'"
      using False linv keys by (simp add: list_inv_def)
    moreover have "r = 1" "mset (bindings t') = mset (firstBinding ?l')"
      using False p(5) ms by simp_all
    ultimately show ?thesis using p(3) p(4) by (auto simp: same_bindings_def)
  qed
qed

lemma bucket_subset_bindings:
  assumes "SymTable_inv sg t" "b \<in> set (buckets t ! bucket_of sg t k)"
  shows "b \<in> set (bindings t)"
  using assms inv_bucket_of_less [OF assms(1), of k] in_bindings_nth [of b t] by blast

lemma step_replace:
  assumes R: "same_bindings sg t l"
  shows "\<exists>old t' l'. SymTable_replace sg (Some t) (Some k) v = Inr (old, t') \<and>
           SymTable_replace_list (Some l) (Some k) v = Inr (old, l') \<and> same_bindings sg t' l'"
proof -
  have inv: "SymTable_inv sg t" and linv: "list_inv l"
    and ms: "mset (bindings t) = mset (firstBinding l)"
    using R by (simp_all add: same_bindings_def)
  let ?i = "bucket_of sg t k"
  have i: "?i < length (buckets t)" by (rule inv_bucket_of_less [OF inv])
  show ?thesis
  proof (cases "k \<in> key ` set (bindings t)")
    case False
    then have "replace_loop (buckets t ! ?i) k v = None"
      using inv_key_bucket [OF inv, of k] by (simp add: replace_loop_None)
    then have 1: "SymTable_replace sg (Some t) (Some k) v = Inr (None, t)"
      by (simp add: SymTable_replace_inv [OF inv])
    have "replace_loop (firstBinding l) k v = None"
      using False same_bindings_keys [OF R] by (simp add: replace_loop_None)
    then have 2: "SymTable_replace_list (Some l) (Some k) v = Inr (None, l)"
      by (simp add: SymTable_replace_list_def)
    show ?thesis using 1 2 R by blast
  next
    case True
    then have "replace_loop (buckets t ! ?i) k v \<noteq> None"
      using inv_key_bucket [OF inv, of k] by (simp add: replace_loop_None)
    then obtain old bs where r: "replace_loop (buckets t ! ?i) k v = Some (old, bs)" by auto
    from replace_loop_Some [OF r] obtain xs b ys where
      d: "buckets t ! ?i = xs @ b # ys" "bs = xs @ b\<lparr>val := v\<rparr> # ys" "key b = k" "val b = old"
      by blast
    let ?t' = "t\<lparr>buckets := (buckets t)[?i := xs @ b\<lparr>val := v\<rparr> # ys]\<rparr>"
    have 1: "SymTable_replace sg (Some t) (Some k) v = Inr (old, ?t')"
      using r d(2) by (simp add: SymTable_replace_inv [OF inv])
    have inv': "SymTable_inv sg ?t'" by (rule replace_chain_inv [OF inv d(1) d(3)])
    have m1: "add_mset b (mset (bindings ?t')) = add_mset (b\<lparr>val := v\<rparr>) (mset (bindings t))"
      using mset_concat_update [OF i, of "xs @ b\<lparr>val := v\<rparr> # ys"] d(1)
      by (simp add: bindings_def)
    have bt: "b \<in> set (bindings t)"
      by (rule bucket_subset_bindings [OF inv, of _ k]) (simp add: d(1))
    have "replace_loop (firstBinding l) k v \<noteq> None"
      using True same_bindings_keys [OF R] by (simp add: replace_loop_None)
    then obtain old2 bs2 where r2: "replace_loop (firstBinding l) k v = Some (old2, bs2)" by auto
    from replace_loop_Some [OF r2] obtain xs2 b2 ys2 where
      d2: "firstBinding l = xs2 @ b2 # ys2" "bs2 = xs2 @ b2\<lparr>val := v\<rparr> # ys2" "key b2 = k"
          "val b2 = old2"
      by blast
    have b2t: "b2 \<in> set (bindings t)" using same_bindings_keys [OF R] d2(1) by simp
    have dk: "distinct (map key (bindings t))" using inv by (simp add: SymTable_inv_def)
    have eq: "b = b2" by (rule key_unique [OF dk bt b2t]) (simp add: d(3) d2(3))
    let ?l' = "l\<lparr>firstBinding := xs2 @ b2\<lparr>val := v\<rparr> # ys2\<rparr>"
    have 2: "SymTable_replace_list (Some l) (Some k) v = Inr (old, ?l')"
      using r2 d2(2) d2(4) d(4) eq by (simp add: SymTable_replace_list_def)
    have linv': "list_inv ?l'" using linv d2(1) by (simp add: list_inv_def)
    have m2: "add_mset b (mset (firstBinding ?l')) = add_mset (b\<lparr>val := v\<rparr>) (mset (firstBinding l))"
      by (simp add: d2(1) eq)
    have "add_mset b (mset (bindings ?t')) = add_mset b (mset (firstBinding ?l'))"
      using m1 m2 ms by simp
    then have "mset (bindings ?t') = mset (firstBinding ?l')" by simp
    then have "same_bindings sg ?t' ?l'" using inv' linv' by (simp add: same_bindings_def)
    then show ?thesis using 1 2 by blast
  qed
qed

lemma step_remove:
  assumes R: "same_bindings sg t l"
  shows "\<exists>old t' l'. SymTable_remove sg (Some t) (Some k) = Inr (old, t') \<and>
           SymTable_remove_list (Some l) (Some k) = Inr (old, l') \<and> same_bindings sg t' l'"
proof -
  have inv: "SymTable_inv sg t" and linv: "list_inv l"
    and ms: "mset (bindings t) = mset (firstBinding l)"
    using R by (simp_all add: same_bindings_def)
  let ?i = "bucket_of sg t k"
  have i: "?i < length (buckets t)" by (rule inv_bucket_of_less [OF inv])
  show ?thesis
  proof (cases "k \<in> key ` set (bindings t)")
    case False
    then have "remove_loop (buckets t ! ?i) k = None"
      using inv_key_bucket [OF inv, of k] by (simp add: remove_loop_None)
    then have 1: "SymTable_remove sg (Some t) (Some k) = Inr (None, t)"
      by (simp add: SymTable_remove_inv [OF inv])
    have "remove_loop (firstBinding l) k = None"
      using False same_bindings_keys [OF R] by (simp add: remove_loop_None)
    then have 2: "SymTable_remove_list (Some l) (Some k) = Inr (None, l)"
      by (simp add: SymTable_remove_list_def)
    show ?thesis using 1 2 R by blast
  next
    case True
    then have c1: "SymTable_contains sg (Some t) (Some k) = Inr 1"
      by (simp add: SymTable_contains_bindings [OF inv])
    then have c2: "SymTable_contains_list (Some l) (Some k) = Inr 1"
      using step_contains [OF R, of k] by simp
    from SymTable_remove_hash_bound [OF inv c1] obtain old t' xs b ys where
      h: "SymTable_remove sg (Some t) (Some k) = Inr (old, t')"
         "buckets t ! ?i = xs @ b # ys" "key b = k" "val b = old"
         "buckets t' = (buckets t)[?i := xs @ ys]" "SymTable_inv sg t'"
      by blast
    from SymTable_remove_list_bound [OF linv c2] obtain old2 l' xs2 b2 ys2 where
      g: "SymTable_remove_list (Some l) (Some k) = Inr (old2, l')"
         "firstBinding l = xs2 @ b2 # ys2" "key b2 = k" "val b2 = old2"
         "firstBinding l' = xs2 @ ys2" "list_inv l'"
      by blast
    have bt: "b \<in> set (bindings t)"
      by (rule bucket_subset_bindings [OF inv, of _ k]) (simp add: h(2))
    have b2t: "b2 \<in> set (bindings t)" using same_bindings_keys [OF R] g(2) by simp
    have dk: "distinct (map key (bindings t))" using inv by (simp add: SymTable_inv_def)
    have eq: "b = b2" by (rule key_unique [OF dk bt b2t]) (simp add: h(3) g(3))
    have m1: "add_mset b (mset (bindings t')) = mset (bindings t)"
      using mset_concat_update [OF i, of "xs @ ys"] h(2) h(5) by (simp add: bindings_def)
    have m2: "add_mset b (mset (firstBinding l')) = mset (firstBinding l)"
      by (simp add: g(2) g(5) eq)
    have "add_mset b (mset (bindings t')) = add_mset b (mset (firstBinding l'))"
      using m1 m2 ms by simp
    then have "mset (bindings t') = mset (firstBinding l')" by simp
    then have "same_bindings sg t' l'" using h(6) g(6) by (simp add: same_bindings_def)
    moreover have "old2 = old" using h(4) g(4) eq by simp
    ultimately show ?thesis using h(1) g(1) by blast
  qed
qed

lemma step_map:
  assumes R: "same_bindings sg t l"
  shows "\<exists>cs cs'. SymTable_map (Some t) (Some record_call) () [] = Inr cs \<and>
           SymTable_map_list (Some l) (Some record_call) () [] = Inr cs' \<and> mset cs = mset cs'"
proof -
  have inv: "SymTable_inv sg t" and ms: "mset (bindings t) = mset (firstBinding l)"
    using R by (simp_all add: same_bindings_def)
  have 1: "SymTable_map (Some t) (Some record_call) () [] =
           Inr (map (\<lambda>b. (key b, val b, ())) (bindings t))"
    by (simp add: SymTable_map_inv [OF inv] map_chain_record bindings_def)
  have 2: "SymTable_map_list (Some l) (Some record_call) () [] =
           Inr (map (\<lambda>b. (key b, val b, ())) (firstBinding l))"
    by (simp add: SymTable_map_list_def map_chain_record)
  have "mset (map (\<lambda>b. (key b, val b, ())) (bindings t)) =
        mset (map (\<lambda>b. (key b, val b, ())) (firstBinding l))"
    using ms by (metis mset_map)
  then show ?thesis using 1 2 by blast
qed

lemma null_key:
  "SymTable_put sg c m1 m2 (Some t) None v = Inl AssertionFailure"
  "SymTable_put_list m1 m2 (Some l) None v = Inl AssertionFailure"
  "SymTable_get sg (Some t) None = Inl AssertionFailure"
  "SymTable_get_list (Some l) None = Inl AssertionFailure"
  "SymTable_contains sg (Some t) None = Inl AssertionFailure"
  "SymTable_contains_list (Some l) None = Inl AssertionFailure"
  "SymTable_replace sg (Some t) None v = Inl AssertionFailure"
  "SymTable_replace_list (Some l) None v = Inl AssertionFailure"
  "SymTable_remove sg (Some t) None = Inl AssertionFailure"
  "SymTable_remove_list (Some l) None = Inl AssertionFailure"
  by (simp_all add: SymTable_put_def SymTable_put_list_def SymTable_get_def SymTable_get_list_def
      SymTable_contains_def SymTable_contains_list_def SymTable_replace_def
      SymTable_replace_list_def SymTable_remove_def SymTable_remove_list_def)

lemma step_equivalent:
  assumes R: "same_bindings sg t l"
  shows "rel_sum (=) (\<lambda>(ob, t') (ob', l'). same_observation ob ob' \<and> same_bindings sg t' l')
           (step_hash sg t x) (step_list l x)"
proof (cases x)
  case (Put c m1 m2 k v)
  show ?thesis
  proof (cases k)
    case None
    then show ?thesis using Put by (simp add: null_key)
  next
    case (Some k')
    from step_put [OF R, of c m1 m2 k' v] show ?thesis using Put Some by auto
  qed
next
  case (Get k)
  show ?thesis
  proof (cases k)
    case None
    then show ?thesis using Get by (simp add: null_key)
  next
    case (Some k')
    have "\<exists>r. SymTable_get_list (Some l) (Some k') = Inr r" by (simp add: SymTable_get_list_def)
    then show ?thesis using Get Some step_get [OF R, of k'] R by auto
  qed
next
  case (Contains k)
  show ?thesis
  proof (cases k)
    case None
    then show ?thesis using Contains by (simp add: null_key)
  next
    case (Some k')
    have "\<exists>r. SymTable_contains_list (Some l) (Some k') = Inr r"
      by (simp add: SymTable_contains_list_def)
    then show ?thesis using Contains Some step_contains [OF R, of k'] R by auto
  qed
next
  case (Replace k v)
  show ?thesis
  proof (cases k)
    case None
    then show ?thesis using Replace by (simp add: null_key)
  next
    case (Some k')
    from step_replace [OF R, of k' v] show ?thesis using Replace Some by auto
  qed
next
  case (Remove k)
  show ?thesis
  proof (cases k)
    case None
    then show ?thesis using Remove by (simp add: null_key)
  next
    case (Some k')
    from step_remove [OF R, of k'] show ?thesis using Remove Some by auto
  qed
next
  case GetLength
  then show ?thesis
    using R same_bindings_length [OF R]
    by (simp add: SymTable_getLength_def SymTable_getLength_list_def)
next
  case Map
  from step_map [OF R] show ?thesis using Map R by auto
qed

lemma run_equivalent:
  "same_bindings sg t l \<Longrightarrow>
     rel_sum (=) (list_all2 same_observation) (run_hash sg t xs) (run_list l xs)"
proof (induction xs arbitrary: t l)
  case Nil
  then show ?case by simp
next
  case (Cons x xs)
  note st = step_equivalent [OF Cons.prems, of x]
  show ?case
  proof (cases "step_hash sg t x")
    case (Inl e)
    then have "step_list l x = Inl e" using st by (cases "step_list l x") simp_all
    then show ?thesis using Inl by simp
  next
    case (Inr p)
    obtain ob t' where p: "p = (ob, t')" by (cases p)
    obtain q where q: "step_list l x = Inr q" using st Inr by (cases "step_list l x") simp_all
    obtain ob' l' where q': "q = (ob', l')" by (cases q)
    have s: "same_observation ob ob'" "same_bindings sg t' l'"
      using st Inr p q q' by simp_all
    note ih = Cons.IH [OF s(2)]
    show ?thesis
    proof (cases "run_hash sg t' xs")
      case (Inl e)
      then have "run_list l' xs = Inl e" using ih by (cases "run_list l' xs") simp_all
      then show ?thesis using Inl Inr p q q' by simp
    next
      case r: (Inr obs)
      obtain obs' where o: "run_list l' xs = Inr obs'"
        using ih r by (cases "run_list l' xs") simp_all
      have "list_all2 same_observation obs obs'" using ih r o by simp
      then show ?thesis using r o Inr p q q' s(1) by simp
    qed
  qed
qed

lemma new_same_bindings:
  assumes "SymTable_new malloc_ok calloc_ok = Some t0" "SymTable_new_list malloc_ok' = Some l0"
  shows "same_bindings sg t0 l0"
proof -
  have "firstBinding l0 = []" "length_list l0 = 0"
    using assms(2) by (auto simp: SymTable_new_list_def split: if_splits)
  then show ?thesis
    using SymTable_new_inv [OF assms(1)] by (simp add: same_bindings_def list_inv_def)
qed

text \<open>
  Claim C8, amended. Started on freshly created tables and given the same sequence of
  operations (with the same outcomes of the allocations both make), the two
  implementations abort at the same operation with the same failure, or both run to the
  end; each operation returns the same result in both, and a traversal makes the same
  calls in both, each the same number of times, but not in the same order.
\<close>

theorem implementations_equivalent:
  assumes "SymTable_new malloc_ok calloc_ok = Some t0"
    and "SymTable_new_list malloc_ok' = Some l0"
  shows "rel_sum (=) (list_all2 same_observation) (run_hash sg t0 ops) (run_list l0 ops)"
  by (rule run_equivalent [OF new_same_bindings [OF assms]])

lemma empty_list_new: "SymTable_new_list True = Some empty_list"
  by (simp add: SymTable_new_list_def empty_list_def)

lemma run_list_scenario:
  "run_list empty_list ops_scenario =
     Inr [PutResult 1, PutResult 1, PutResult 0, GetResult (Some 10), ReplaceResult (Some 10),
          GetResult (Some 90), RemoveResult (Some 20), LengthResult 1, ContainsResult 0,
          MapCalls [(''a'', Some 90, ())]]"
  by (simp add: ops_scenario_def empty_list_def SymTable_put_list_def SymTable_get_list_def
      SymTable_replace_list_def SymTable_remove_list_def SymTable_getLength_list_def
      SymTable_contains_list_def SymTable_map_list_def record_call_def)

text \<open>The scenario of the specification: insert \<open>a\<close> and \<open>b\<close>, insert \<open>a\<close> again,
  replace \<open>a\<close>, remove \<open>b\<close>, traverse.\<close>

theorem implementations_equivalent_witness:
  "SymTable_new True True = Some empty_table \<and>
   SymTable_new_list True = Some empty_list \<and>
   rel_sum (=) (list_all2 same_observation)
     (run_hash False empty_table ops_scenario) (run_list empty_list ops_scenario) \<and>
   run_list empty_list ops_scenario =
     Inr [PutResult 1, PutResult 1, PutResult 0, GetResult (Some 10), ReplaceResult (Some 10),
          GetResult (Some 90), RemoveResult (Some 20), LengthResult 1, ContainsResult 0,
          MapCalls [(''a'', Some 90, ())]]"
  using implementations_equivalent [OF empty_table_new empty_list_new, of False ops_scenario]
    empty_table_new empty_list_new run_list_scenario
  by (intro conjI)

lemma put_fresh_no_grow_bindings:
  assumes inv: "SymTable_inv sg t"
    and small: "length (bindings t) \<le> unat (numBuckets t)"
    and fresh: "k \<notin> key ` set (bindings t)"
  shows "\<exists>t'. SymTable_put sg c True True (Some t) (Some k) v = Inr (1, t') \<and>
           SymTable_inv sg t' \<and> numBuckets t' = numBuckets t \<and>
           bindings t' =
             concat (take (bucket_of sg t k) (buckets t)) @
             \<lparr>key = k, val = v\<rparr> # buckets t ! bucket_of sg t k @
             concat (drop (Suc (bucket_of sg t k)) (buckets t))"
proof -
  let ?i = "bucket_of sg t k"
  let ?b = "\<lparr>key = k, val = v\<rparr>"
  have "length_tbl t = of_nat (length (bindings t))" using inv by (simp add: SymTable_inv_def)
  then have ng: "\<not> numBuckets t < length_tbl t" using no_growth_word [OF small] by simp
  from put_grow_ok [OF inv, of c] ng have g: "put_grow sg c t = Inr t" by auto
  from SymTable_put_ok [OF inv, of c True True k v] fresh g obtain t' where
    p: "SymTable_put sg c True True (Some t) (Some k) v = Inr (1, t')" "SymTable_inv sg t'"
       "numBuckets t' = numBuckets t"
       "t' = t\<lparr>buckets := (buckets t)[?i := ?b # buckets t ! ?i],
                length_tbl := length_tbl t + 1\<rparr>"
    by auto
  have "bindings t' = concat (take ?i (buckets t)) @ ?b # buckets t ! ?i @
          concat (drop (Suc ?i) (buckets t))"
    unfolding p(4) by (rule put_insert_inv(2) [OF inv fresh])
  then show ?thesis using p(1) p(2) p(3) by blast
qed

lemma bucket_of_a_b:
  "numBuckets t = 509 \<Longrightarrow> bucket_of False t ''a'' = 97"
  "numBuckets t = 509 \<Longrightarrow> bucket_of False t ''b'' = 98"
  by (simp_all add: bucket_of_def char_to_size_t_def)

lemma run_hash_ab:
  "run_hash False empty_table ops_ab =
     Inr [PutResult 1, PutResult 1, MapCalls [(''a'', Some 10, ()), (''b'', Some 20, ())]]"
proof -
  let ?a = "\<lparr>key = ''a'', val = Some (10 :: nat)\<rparr>"
  let ?b = "\<lparr>key = ''b'', val = Some (20 :: nat)\<rparr>"
  have s0: "length (bindings empty_table) \<le> unat (numBuckets empty_table)"
    by (simp add: empty_table_inv)
  have f0: "''a'' \<notin> key ` set (bindings empty_table)" by (simp add: empty_table_inv)
  from put_fresh_no_grow [OF empty_table_inv(1) s0 f0, where c = True and v = "Some 10"]
  obtain t1 where
    p1: "SymTable_put False True True True (Some empty_table) (Some ''a'') (Some 10) = Inr (1, t1)"
        "SymTable_inv False t1" "numBuckets t1 = 509" "bindings t1 = [?a]"
    by (auto simp: empty_table_inv)
  have s1: "length (bindings t1) \<le> unat (numBuckets t1)" by (simp add: p1)
  have f1: "''b'' \<notin> key ` set (bindings t1)" by (simp add: p1)
  from put_fresh_no_grow_bindings [OF p1(2) s1 f1, where c = True and v = "Some 20"]
  obtain t2 where
    p2: "SymTable_put False True True True (Some t1) (Some ''b'') (Some 20) = Inr (1, t2)"
        "SymTable_inv False t2"
        "bindings t2 = concat (take (bucket_of False t1 ''b'') (buckets t1)) @
           ?b # buckets t1 ! bucket_of False t1 ''b'' @
           concat (drop (Suc (bucket_of False t1 ''b'')) (buckets t1))"
    by blast
  have ib: "bucket_of False t1 ''b'' = 98" by (rule bucket_of_a_b(2) [OF p1(3)])
  have len: "length (buckets t1) = 509" using p1(2) p1(3) by (simp add: SymTable_inv_def)
  have "?a \<in> set (bindings t1)" by (simp add: p1(4))
  then obtain j where j: "j < length (buckets t1)" "?a \<in> set (buckets t1 ! j)"
    using in_bindings_nth [of ?a t1] by blast
  have "bucket_of False t1 (key ?a) = j" by (rule inv_bucketD [OF p1(2) j])
  then have j97: "j = 97" using bucket_of_a_b(1) [OF p1(3)] by simp
  have "?a \<in> set (take 98 (buckets t1) ! 97)" using j j97 by simp
  moreover have "97 < length (take 98 (buckets t1))" using len by simp
  ultimately have ain: "?a \<in> set (concat (take 98 (buckets t1)))"
    using in_concat_nth [of ?a "take 98 (buckets t1)"] by blast
  have split: "concat (take 98 (buckets t1)) @ buckets t1 ! 98 @ concat (drop (Suc 98) (buckets t1)) = [?a]"
    using concat_nth_split [of 98 "buckets t1"] len p1(4) by (simp add: bindings_def)
  have A: "concat (take 98 (buckets t1)) = [?a]"
    using split ain by (cases "concat (take 98 (buckets t1))") (auto simp: Cons_eq_append_conv)
  have B: "buckets t1 ! 98 @ concat (drop (Suc 98) (buckets t1)) = []"
    using split A by simp
  have b2: "bindings t2 = [?a, ?b]"
    using p2(3) A B by (simp add: ib)
  have m: "SymTable_map (Some t2) (Some record_call) () [] =
           Inr [(''a'', Some 10, ()), (''b'', Some 20, ())]"
    using b2 by (simp add: SymTable_map_inv [OF p2(2)] bindings_def record_call_def)
  show ?thesis by (simp add: ops_ab_def p1(1) p2(1) m)
qed

lemma run_list_ab:
  "run_list empty_list ops_ab =
     Inr [PutResult 1, PutResult 1, MapCalls [(''b'', Some 20, ()), (''a'', Some 10, ())]]"
  by (simp add: ops_ab_def empty_list_def SymTable_put_list_def SymTable_map_list_def
      record_call_def)

text \<open>The claim as stated fails on the order of a traversal. Insert \<open>a\<close>, then \<open>b\<close>,
  into fresh tables and traverse: the list passes \<open>b\<close> first (the head of the list), the
  hash table passes \<open>a\<close> first (bucket 97 comes before bucket 98).\<close>

theorem implementations_equivalent_counterexample:
  "SymTable_new True True = Some empty_table \<and>
   SymTable_new_list True = Some empty_list \<and>
   run_hash False empty_table ops_ab =
     Inr [PutResult 1, PutResult 1, MapCalls [(''a'', Some 10, ()), (''b'', Some 20, ())]] \<and>
   run_list empty_list ops_ab =
     Inr [PutResult 1, PutResult 1, MapCalls [(''b'', Some 20, ()), (''a'', Some 10, ())]] \<and>
   run_hash False empty_table ops_ab \<noteq> run_list empty_list ops_ab"
  using empty_table_new empty_list_new run_hash_ab run_list_ab by simp

section \<open>A duplicate key where a growth is due\<close>



end
